theory Spec2Isabelle
  imports Main "HOL-Library.Word"
begin

unbundle bit_operations_syntax

section \<open>The file-system checker \<open>xcheck.c\<close>\<close>

text \<open>
  The checker reads a raw xv6 file-system image and walks it.  The image is a
  sequence of bytes; every C \<open>uint\<close> is a \<open>32 word\<close>, every \<open>ushort\<close> and
  \<open>short\<close> a \<open>16 word\<close> (read with \<open>sint\<close> where the C code compares it as a
  signed value), every \<open>uchar\<close> an \<open>8 word\<close>.  The host is taken to be
  little-endian with a 64-bit \<open>long\<close>, so that \<open>fseek\<close> accepts every
  \<open>uint\<close> offset.
\<close>

type_synonym byte = "8 word"
type_synonym ushort = "16 word"
type_synonym uint = "32 word"

subsection \<open>Constants of the headers\<close>

text \<open>
  The headers \<open>fs.h\<close> and \<open>param.h\<close> are included by \<open>xcheck.c\<close> but are not
  among the sources.  The constants and record layouts below are what the
  program needs from them.
\<close>

text \<open>Modelled from the spec: the macro \<open>BSIZE\<close> of \<open>fs.h\<close>, the "fixed block
  size" of the on-disk format; 512 bytes in the xv6 this checker is built for.\<close>
definition BSIZE :: nat where
  "BSIZE = 512"

text \<open>Modelled from the spec: the macro \<open>NDIRECT\<close> of \<open>fs.h\<close>, the "constant
  number of direct addresses" of an inode (the comment in \<open>recurse_dir\<close> gives
  \<open>NDIRECT=12\<close>).\<close>
definition NDIRECT :: nat where
  "NDIRECT = 12"

text \<open>Modelled from the spec: \<open>sizeof(uint)\<close>, the "address size".\<close>
definition sizeof_uint :: nat where
  "sizeof_uint = 4"

text \<open>Modelled from the spec: the macro \<open>NINDIRECT\<close> of \<open>fs.h\<close>, the capacity of
  an indirect block, "block size / address size".\<close>
definition NINDIRECT :: nat where
  "NINDIRECT = BSIZE div sizeof_uint"

text \<open>Modelled from the spec: \<open>sizeof(struct dinode)\<close> for the inode record of
  \<open>fs.h\<close>: type tag, two device numbers and link count (four \<open>short\<close>), the
  size (\<open>uint\<close>) and \<open>NDIRECT + 1\<close> addresses.\<close>
definition sizeof_dinode :: nat where
  "sizeof_dinode = 4 * 2 + sizeof_uint + (NDIRECT + 1) * sizeof_uint"

text \<open>Modelled from the spec: the macro \<open>IPB\<close> of \<open>fs.h\<close>, "inodes per block".\<close>
definition IPB :: nat where
  "IPB = BSIZE div sizeof_dinode"

text \<open>Modelled from the spec: the macro \<open>DIRSIZ\<close> of \<open>fs.h\<close>, the length of the
  "fixed-length name" of a directory entry.\<close>
definition DIRSIZ :: nat where
  "DIRSIZ = 14"

text \<open>Modelled from the spec: \<open>sizeof(struct dirent)\<close>: a \<open>ushort\<close> inode number
  and the name.\<close>
definition sizeof_dirent :: nat where
  "sizeof_dirent = 2 + DIRSIZ"

definition T_DIR :: int where "T_DIR = 1"
definition T_FILE :: int where "T_FILE = 2"
definition T_DEV :: int where "T_DEV = 3"

subsection \<open>Records of the image\<close>

text \<open>Modelled from the spec: \<open>struct superblock\<close> of \<open>fs.h\<close>; seven \<open>uint\<close>
  fields in this order.\<close>
record superblock =
  sb_size :: uint
  sb_nblocks :: uint
  sb_ninodes :: uint
  sb_nlog :: uint
  sb_logstart :: uint
  sb_inodestart :: uint
  sb_bmapstart :: uint

text \<open>Modelled from the spec: \<open>struct dinode\<close> of \<open>fs.h\<close>.  Only the fields the
  checker reads are kept: \<open>type\<close> and \<open>nlink\<close> are \<open>short\<close>, \<open>addrs\<close> has
  \<open>NDIRECT + 1\<close> entries, the last one the indirect address.\<close>
record dinode =
  d_type :: ushort
  d_nlink :: ushort
  d_addrs :: "nat \<Rightarrow> uint"

text \<open>Modelled from the spec: \<open>struct dirent\<close> of \<open>fs.h\<close>.\<close>
record dirent =
  de_inum :: ushort
  de_name :: "byte list"

subsection \<open>Layout calculation (\<open>main\<close>, lines 60 to 66)\<close>

text \<open>The globals \<open>ninodes, iblocks, bmapblocks, nblocks, bmapstart, nmeta\<close>
  and \<open>sb\<close>, assigned once in \<open>main\<close>.\<close>
record globals =
  sb :: superblock
  ninodes :: uint
  iblocks :: uint
  bmapblocks :: uint
  nblocks :: uint
  bmapstart :: uint
  nmeta :: uint

definition layout :: "superblock \<Rightarrow> globals" where
  "layout s =
    (let bmapblocks' = sb_size s div (of_nat (BSIZE * 8)) + 1;
         ninodes' = sb_ninodes s;
         iblocks' = ninodes' div (of_nat IPB) + 1;
         nmeta' = 2 + sb_nlog s + iblocks' + bmapblocks'
     in \<lparr> sb = s, ninodes = ninodes', iblocks = iblocks',
          bmapblocks = bmapblocks', nblocks = sb_nblocks s,
          bmapstart = sb_bmapstart s, nmeta = nmeta' \<rparr>)"

subsection \<open>The image file and the block reader\<close>

text \<open>
  The image file: its length in bytes and its content.  \<open>fopen\<close> gives the
  checker either such a file or \<open>NULL\<close> (\<open>None\<close>).
\<close>
record image =
  img_size :: nat
  img_byte :: "nat \<Rightarrow> byte"

type_synonym buffer = "nat \<Rightarrow> byte"

text \<open>Little-endian reads out of a buffer, as the pointer casts of the source
  do on the host.\<close>
definition rd16 :: "buffer \<Rightarrow> nat \<Rightarrow> ushort" where
  "rd16 buf off = word_of_nat (unat (buf off) + 256 * unat (buf (off + 1)))"

definition rd32 :: "buffer \<Rightarrow> nat \<Rightarrow> uint" where
  "rd32 buf off =
     word_of_nat (unat (buf off) + 256 * unat (buf (off + 1))
       + 65536 * unat (buf (off + 2)) + 16777216 * unat (buf (off + 3)))"

text \<open>\<open>rblock\<close> with \<open>fp_seek_block\<close> and \<open>fp_seek\<close>: the offset \<open>num * BSIZE\<close>
  is a \<open>uint\<close> and wraps; \<open>fseek\<close> to it succeeds, \<open>fread\<close> of one whole block
  fails when the file ends before it (\<open>None\<close>: \<open>perror\<close> and \<open>exit(1)\<close>).\<close>
definition rblock :: "image \<Rightarrow> uint \<Rightarrow> buffer option" where
  "rblock img num =
     (let off = unat (num * word_of_nat BSIZE)
      in if off + BSIZE \<le> img_size img
         then Some (\<lambda>i. img_byte img (off + i)) else None)"

definition dinode_at :: "buffer \<Rightarrow> nat \<Rightarrow> dinode" where
  "dinode_at buf slot =
     (let base = slot * sizeof_dinode
      in \<lparr> d_type = rd16 buf base, d_nlink = rd16 buf (base + 6),
           d_addrs = (\<lambda>k. rd32 buf (base + 12 + sizeof_uint * k)) \<rparr>)"

text \<open>\<open>rinode\<close>; \<open>IBLOCK(inum, sb)\<close> is \<open>inum / IPB + sb.inodestart\<close>, stored
  in a \<open>uint\<close>.\<close>
definition rinode :: "image \<Rightarrow> globals \<Rightarrow> uint \<Rightarrow> dinode option" where
  "rinode img g inum =
     (let bn = inum div word_of_nat IPB + sb_inodestart (sb g)
      in case rblock img bn of
           None \<Rightarrow> None
         | Some buf \<Rightarrow> Some (dinode_at buf (unat inum mod IPB)))"

definition rdirent :: "nat \<Rightarrow> buffer \<Rightarrow> dirent" where
  "rdirent ent buf =
     (let base = ent * sizeof_dirent
      in \<lparr> de_inum = rd16 buf base,
           de_name = map (\<lambda>k. buf (base + 2 + k)) [0..<DIRSIZ] \<rparr>)"

text \<open>\<open>strcmp(de.name, lit) != 0\<close> for a literal shorter than \<open>DIRSIZ\<close>: the
  bytes of the name up to its first NUL differ from the literal.\<close>
definition strcmp_ne :: "byte list \<Rightarrow> byte list \<Rightarrow> bool" where
  "strcmp_ne name lit \<longleftrightarrow> takeWhile (\<lambda>c. c \<noteq> 0) name \<noteq> lit"

definition dot :: "byte list" where "dot = [46]"
definition dotdot :: "byte list" where "dotdot = [46, 46]"

definition bmapval :: "image \<Rightarrow> globals \<Rightarrow> uint \<Rightarrow> uint option" where
  "bmapval img g num =
     (let blk = (num div 8) div word_of_nat BSIZE;
          bit = num - word_of_nat (BSIZE * 8) * blk
      in case rblock img (blk + bmapstart g) of
           None \<Rightarrow> None
         | Some buf \<Rightarrow>
             (let byte = buf (unat (bit div 8))
              in Some (ucast (drop_bit (unat (bit mod 8)) byte) AND 1)))"

definition check_bp :: "globals \<Rightarrow> uint \<Rightarrow> bool" where
  "check_bp g bp \<longleftrightarrow> bp \<ge> nmeta g \<and> bp < sb_nblocks (sb g)"

subsection \<open>Process state and outcomes\<close>

text \<open>
  What \<open>printf\<close> writes, one constructor for each call in the source:
  \<^item> \<open>Usage\<close>: \<open>usage: xcheck <filesystem_image>\<close>
  \<^item> \<open>InvalidImage\<close>: \<open>invalid image file.\<close>
  \<^item> \<open>NoSuperblock\<close>: \<open>Unable to read superblock.\<close>
  \<^item> \<open>RootMissing\<close>: \<open>ERROR: root directory does not exist.\<close>
  \<^item> \<open>FreeButReferred\<close>: \<open>ERROR: inode referred to in directory but marked free.\<close>
  \<^item> \<open>BadInode\<close>: \<open>ERROR: bad inode.\<close>
  \<^item> \<open>NotInDirectory\<close>: \<open>ERROR: inode marked use but not found in a directory.\<close>
  \<^item> \<open>InodeNumber i\<close>: \<open>inode number: i\<close>
  \<^item> \<open>DirTwice\<close>: \<open>ERROR: directory appears more than once in file system.\<close>
  \<^item> \<open>BadRefCount\<close>: \<open>ERROR: bad reference count for file.\<close>
  \<^item> \<open>FreeInBitmap\<close>: \<open>ERROR: address used by inode but marked free in bitmap.\<close>
  \<^item> \<open>BitmapNotInUse\<close>: \<open>ERROR: bitmap marks block in use but it is not in use.\<close>
  \<^item> \<open>AppErrorDir\<close>: \<open>Application Error: 'traversedir' called on a non-directory\<close>
  \<^item> \<open>BadDirect\<close>: \<open>ERROR: bad direct address in inode.\<close>
  \<^item> \<open>BadFormat\<close>: \<open>ERROR: directory not properly formatted.\<close>
  \<^item> \<open>InvalidType\<close>: \<open>Invalide inode type\<close>
  \<^item> \<open>AppErrorFile\<close>: \<open>Application Error: non-file inode passed to process_file\<close>
  \<^item> \<open>DirectTwice\<close>: \<open>ERROR: direct address used more than once.\<close>
  \<^item> \<open>BadIndirect\<close>: \<open>ERROR: bad indirect address in inode.\<close>
  \<^item> \<open>IndirectTwice\<close>: \<open>ERROR: indirect address used more than once.\<close>
\<close>
datatype diag =
    Usage | InvalidImage | NoSuperblock | RootMissing | FreeButReferred
  | BadInode | NotInDirectory | InodeNumber nat | DirTwice | BadRefCount
  | FreeInBitmap | BitmapNotInUse | AppErrorDir | BadDirect | BadFormat
  | InvalidType | AppErrorFile | DirectTwice | BadIndirect | IndirectTwice

text \<open>
  Steps of the run that print nothing, recorded to state what the checker did:
  \<^item> \<open>Enter inum\<close>: \<open>recurse_dir\<close> was called for inode \<open>inum\<close>;
  \<^item> \<open>Count inum i slot target\<close>: \<open>++inode_refs[target]\<close> ran for the entry in
    slot \<open>slot\<close> of data block \<open>addrs[i]\<close> of directory \<open>inum\<close>;
  \<^item> \<open>Lookup k\<close>: the inode scan of \<open>main\<close> called \<open>bmapval(inode.addrs[k])\<close>.
\<close>
datatype event = Enter uint | Count uint nat nat uint | Lookup nat

text \<open>
  The two tables \<open>inode_refs\<close> and \<open>block_refs\<close> with the number of \<open>uint\<close>
  cells \<open>malloc\<close> gave each, the standard output and the steps so far.
\<close>
record walk =
  inode_refs :: "nat \<Rightarrow> uint"
  inode_cap :: nat
  block_refs :: "nat \<Rightarrow> uint"
  block_cap :: nat
  out :: "diag list"
  steps :: "event list"

text \<open>
  How a part of the program ends: it returns to its caller (\<open>Cont\<close>), the
  process exits with a status (\<open>Exited\<close>: \<open>exit\<close> or the \<open>return\<close> of
  \<open>main\<close>), or it does what C leaves undefined (\<open>Faulted\<close>: a table cell
  outside the allocation, a \<open>NULL\<close> stream, overflow of an \<open>int\<close> counter).
\<close>
datatype run = Cont walk | Exited walk int | Faulted walk

definition say :: "diag \<Rightarrow> walk \<Rightarrow> walk" where
  "say d st = st\<lparr>out := out st @ [d]\<rparr>"

definition logstep :: "event \<Rightarrow> walk \<Rightarrow> walk" where
  "logstep e st = st\<lparr>steps := steps st @ [e]\<rparr>"

definition bump_inode :: "nat \<Rightarrow> walk \<Rightarrow> walk" where
  "bump_inode k st = st\<lparr>inode_refs := (inode_refs st)(k := inode_refs st k + 1)\<rparr>"

definition bump_block :: "nat \<Rightarrow> walk \<Rightarrow> walk" where
  "bump_block k st = st\<lparr>block_refs := (block_refs st)(k := block_refs st k + 1)\<rparr>"

subsection \<open>The file-block walker \<open>process_file\<close>\<close>

text \<open>The loop over the entries of the indirect block (lines 276 to 289).\<close>
function pf_indirect :: "globals \<Rightarrow> buffer \<Rightarrow> nat \<Rightarrow> walk \<Rightarrow> run" where
  "pf_indirect g buf i st =
     (if i < NINDIRECT then
        (let bpi = rd32 buf (sizeof_uint * i)
         in if bpi = 0 then Cont st
            else if \<not> check_bp g bpi then Exited (say BadIndirect st) 1
            else (let k = unat (bpi - nmeta g)
                  in if \<not> k < block_cap st then Faulted st
                     else (let st' = bump_block k st
                           in if block_refs st' k > 1
                              then Exited (say IndirectTwice st') 1
                              else pf_indirect g buf (i + 1) st')))
      else Cont st)"
  by pat_completeness auto
termination
  by (relation "measure (\<lambda>(g, buf, i, st). NINDIRECT - i)") auto

text \<open>Lines 261 to 275: the indirect block itself.  \<open>bp\<close> is the variable the
  loop over the direct addresses has left behind.\<close>
definition pf_tail :: "image \<Rightarrow> globals \<Rightarrow> dinode \<Rightarrow> uint \<Rightarrow> walk \<Rightarrow> run" where
  "pf_tail img g f bp st =
     (let ibp = d_addrs f NDIRECT
      in if ibp = 0 then Cont st
         else if \<not> check_bp g bp then Exited (say BadDirect st) 1
         else (let k = unat (ibp - nmeta g)
               in if \<not> k < block_cap st then Faulted st
                  else (let st' = bump_block k st;
                            st'' = (if block_refs st' k > 1
                                    then say DirectTwice st' else st')
                        in case rblock img ibp of
                             None \<Rightarrow> Exited st'' 1
                           | Some buf \<Rightarrow> pf_indirect g buf 0 st'')))"

text \<open>The loop over the direct addresses (lines 246 to 259), followed by the
  rest of the function.\<close>
function pf_direct :: "image \<Rightarrow> globals \<Rightarrow> dinode \<Rightarrow> nat \<Rightarrow> uint \<Rightarrow> walk \<Rightarrow> run" where
  "pf_direct img g f i bp0 st =
     (if i < NDIRECT then
        (let bp = d_addrs f i
         in if bp = 0 then Cont st
            else if \<not> check_bp g bp then Exited (say BadDirect st) 1
            else (let k = unat (bp - nmeta g)
                  in if \<not> k < block_cap st then Faulted st
                     else (let st' = bump_block k st
                           in if block_refs st' k > 1
                              then Exited (say DirectTwice st') 1
                              else pf_direct img g f (i + 1) bp st')))
      else pf_tail img g f bp0 st)"
  by pat_completeness auto
termination
  by (relation "measure (\<lambda>(img, g, f, i, bp0, st). NDIRECT - i)") auto

text \<open>\<open>bp\<close> is declared without a value; the loop assigns it before it is
  read, since \<open>NDIRECT > 0\<close>.\<close>
definition process_file :: "image \<Rightarrow> globals \<Rightarrow> dinode \<Rightarrow> walk \<Rightarrow> run" where
  "process_file img g f st =
     (if sint (d_type f) \<noteq> T_FILE \<and> sint (d_type f) \<noteq> T_DEV
      then Exited (say AppErrorFile st) 1
      else pf_direct img g f 0 0 st)"

subsection \<open>The directory walker \<open>recurse_dir\<close>\<close>

text \<open>
  \<open>recurse_dir\<close> calls itself, with no bound on the depth in the source.  The
  first argument bounds the depth of the calls; \<open>None\<close> says that the bound
  was reached.  \<open>dir_blocks\<close> is the loop over \<open>dir->addrs[i]\<close>, \<open>dir_entries\<close>
  the \<open>while\<close> loop over the entries of one block.
\<close>
function recurse_dir :: "nat \<Rightarrow> image \<Rightarrow> globals \<Rightarrow> dinode \<Rightarrow> uint \<Rightarrow> walk \<Rightarrow> run option"
  and dir_blocks :: "nat \<Rightarrow> image \<Rightarrow> globals \<Rightarrow> dinode \<Rightarrow> uint \<Rightarrow> nat \<Rightarrow> walk \<Rightarrow> run option"
  and dir_entries :: "nat \<Rightarrow> image \<Rightarrow> globals \<Rightarrow> uint \<Rightarrow> nat \<Rightarrow> buffer \<Rightarrow> nat \<Rightarrow> walk \<Rightarrow> run option"
where
  "recurse_dir fuel img g dir inum st =
     (if fuel = 0 then None
      else (let st0 = logstep (Enter inum) st
            in if sint (d_type dir) \<noteq> T_DIR then Some (Exited (say AppErrorDir st0) 1)
               else dir_blocks (fuel - 1) img g dir inum 0 st0))"
| "dir_blocks fuel img g dir inum i st =
     (if i < NDIRECT then
        (let bp = d_addrs dir i
         in if bp = 0 then Some (Cont st)
            else if \<not> check_bp g bp then Some (Exited (say BadDirect st) 1)
            else (let k = unat (bp - nmeta g)
                  in if \<not> k < block_cap st then Some (Faulted st)
                     else (let st' = bump_block k st
                           in case rblock img bp of
                                None \<Rightarrow> Some (Exited st' 1)
                              | Some buf \<Rightarrow>
                                  if i = 0 \<and> (strcmp_ne (de_name (rdirent 0 buf)) dot
                                        \<or> ucast (de_inum (rdirent 0 buf)) \<noteq> inum)
                                  then Some (Exited (say BadFormat st') 1)
                                  else if i = 0 \<and> strcmp_ne (de_name (rdirent 1 buf)) dotdot
                                  then Some (Exited (say BadFormat st') 1)
                                  else (case dir_entries fuel img g inum i buf
                                               (if i = 0 then 2 else 0) st' of
                                          Some (Cont st'') \<Rightarrow>
                                            dir_blocks fuel img g dir inum (i + 1) st''
                                        | r \<Rightarrow> r))))
      else Some (Cont st))"
| "dir_entries fuel img g inum i buf bdeidx st =
     (if bdeidx < BSIZE div sizeof_dirent then
        (let de = rdirent bdeidx buf
         in if de_inum de = 0 then Some (Cont st)
            else (case rinode img g (ucast (de_inum de)) of
                    None \<Rightarrow> Some (Exited st 1)
                  | Some cur_inode \<Rightarrow>
                      if sint (d_type cur_inode) < T_DIR \<or> sint (d_type cur_inode) > T_DEV
                      then Some (Exited (say InvalidType st) 1)
                      else if \<not> unat (de_inum de) < inode_cap st then Some (Faulted st)
                      else (let st' = logstep (Count inum i bdeidx (ucast (de_inum de)))
                                        (bump_inode (unat (de_inum de)) st)
                            in if sint (d_type cur_inode) = T_DIR then
                                 (if inode_refs st' (unat (de_inum de)) > 1
                                  then Some (Exited (say DirTwice st') 1)
                                  else (case recurse_dir fuel img g cur_inode
                                               (ucast (de_inum de)) st' of
                                          Some (Cont st'') \<Rightarrow>
                                            dir_entries fuel img g inum i buf (bdeidx + 1) st''
                                        | r \<Rightarrow> r))
                               else (case process_file img g cur_inode st' of
                                       Cont st'' \<Rightarrow>
                                         dir_entries fuel img g inum i buf (bdeidx + 1) st''
                                     | r \<Rightarrow> Some r))))
      else Some (Cont st))"
  by pat_completeness auto
termination
  by (relation "measures
        [\<lambda>x. case x of Inl (fuel, _) \<Rightarrow> fuel | Inr (Inl (fuel, _)) \<Rightarrow> fuel
                      | Inr (Inr (fuel, _)) \<Rightarrow> fuel,
         \<lambda>x. case x of Inl _ \<Rightarrow> 0 | Inr (Inl _) \<Rightarrow> 2 | Inr (Inr _) \<Rightarrow> 1,
         \<lambda>x. case x of Inl _ \<Rightarrow> 0
                      | Inr (Inl (fuel, img, g, dir, inum, i, st)) \<Rightarrow> NDIRECT - i
                      | Inr (Inr (fuel, img, g, inum, i, buf, bdeidx, st)) \<Rightarrow>
                          BSIZE div sizeof_dirent - bdeidx]")
     auto

subsection \<open>The passes of \<open>main\<close> after the traversal\<close>

text \<open>The loop over the addresses of one inode (lines 130 to 148).\<close>
function scan_addrs :: "image \<Rightarrow> globals \<Rightarrow> dinode \<Rightarrow> nat \<Rightarrow> walk \<Rightarrow> run" where
  "scan_addrs img g inode i st =
     (if i < NDIRECT then
        (if d_addrs inode i = 0 then Cont st
         else (let st1 = logstep (Lookup i) st
               in case bmapval img g (d_addrs inode i) of
                    None \<Rightarrow> Exited st1 1
                  | Some v \<Rightarrow>
                      if v = 0 then Exited (say FreeInBitmap st1) 1
                      else if i = NDIRECT - 1 then
                        (if d_addrs inode NDIRECT = 0 then Cont st1
                         else (let st2 = logstep (Lookup NDIRECT) st1
                               in case bmapval img g (d_addrs inode NDIRECT) of
                                    None \<Rightarrow> Exited st2 1
                                  | Some w \<Rightarrow>
                                      scan_addrs img g inode (i + 1)
                                        (if w = 0 then say FreeInBitmap st2 else st2)))
                      else scan_addrs img g inode (i + 1) st1))
      else Cont st)"
  by pat_completeness auto
termination
  by (relation "measure (\<lambda>(img, g, inode, i, st). NDIRECT - i)") auto

text \<open>The loop over the inodes (lines 94 to 149).  The counter is an \<open>int\<close>
  compared with the \<open>uint\<close> \<open>ninodes\<close>; \<open>++i\<close> at \<open>INT_MAX\<close> is undefined.\<close>
function inode_scan :: "image \<Rightarrow> globals \<Rightarrow> nat \<Rightarrow> walk \<Rightarrow> run" where
  "inode_scan img g i st =
     (if i < unat (ninodes g) then
        (case rinode img g (word_of_nat i) of
           None \<Rightarrow> Exited st 1
         | Some inode \<Rightarrow>
             (case (if sint (d_type inode) = 0 then
                      (if \<not> i < inode_cap st then Faulted st
                       else if inode_refs st i \<noteq> 0
                       then Exited (say FreeButReferred st) 1
                       else Cont st)
                    else if sint (d_type inode) < T_DIR \<or> sint (d_type inode) > T_DEV
                    then Exited (say BadInode st) 1
                    else if \<not> i < inode_cap st then Faulted st
                    else if inode_refs st i = 0
                    then Exited (say (InodeNumber i) (say NotInDirectory st)) 1
                    else if sint (d_type inode) = T_DIR \<and> inode_refs st i > 1
                    then Exited (say DirTwice st) 1
                    else if scast (d_nlink inode) \<noteq> inode_refs st i
                    then Exited (say BadRefCount st) 1
                    else scan_addrs img g inode 0 st) of
                Cont st' \<Rightarrow>
                  if i = 2 ^ 31 - 1 then Faulted st'
                  else inode_scan img g (i + 1) st'
              | r \<Rightarrow> r))
      else Cont st)"
  by pat_completeness auto
termination
  by (relation "measure (\<lambda>(img, g, i, st). unat (ninodes g) - i)") auto

text \<open>The loop over the bitmap (lines 152 to 158), with an \<open>int\<close> counter as
  well; \<open>block_refs\<close> is read only where the bit is set.\<close>
function bitmap_scan :: "image \<Rightarrow> globals \<Rightarrow> nat \<Rightarrow> walk \<Rightarrow> run" where
  "bitmap_scan img g i st =
     (if i < unat (nblocks g) then
        (case bmapval img g (word_of_nat i) of
           None \<Rightarrow> Exited st 1
         | Some v \<Rightarrow>
             (let k = unat (word_of_nat i - nmeta g)
              in if v \<noteq> 0 \<and> \<not> k < block_cap st then Faulted st
                 else if v \<noteq> 0 \<and> block_refs st k = 0
                 then Exited (say BitmapNotInUse st) 1
                 else if i = 2 ^ 31 - 1 then Faulted st
                 else bitmap_scan img g (i + 1) st))
      else Cont st)"
  by pat_completeness auto
termination
  by (relation "measure (\<lambda>(img, g, i, st). unat (nblocks g) - i)") auto

subsection \<open>\<open>main\<close>\<close>

text \<open>Modelled from the spec: \<open>sizeof(struct superblock)\<close>, seven \<open>uint\<close>.\<close>
definition sizeof_superblock :: nat where
  "sizeof_superblock = 7 * sizeof_uint"

text \<open>The \<open>fread\<close> into the global \<open>sb\<close> at offset \<open>BSIZE\<close>: the bytes the file
  has there are stored, the rest of \<open>sb\<close> keeps the zeros of a global.\<close>
definition read_sb :: "image \<Rightarrow> superblock" where
  "read_sb img =
     (let buf = (\<lambda>k. if BSIZE + k < img_size img then img_byte img (BSIZE + k) else 0)
      in \<lparr> sb_size = rd32 buf 0, sb_nblocks = rd32 buf 4, sb_ninodes = rd32 buf 8,
           sb_nlog = rd32 buf 12, sb_logstart = rd32 buf 16,
           sb_inodestart = rd32 buf 20, sb_bmapstart = rd32 buf 24 \<rparr>)"

text \<open>The state at the start of \<open>main\<close>: nothing printed, no table yet.\<close>
definition start :: walk where
  "start = \<lparr> inode_refs = (\<lambda>_. 0), inode_cap = 0, block_refs = (\<lambda>_. 0),
             block_cap = 0, out = [], steps = [] \<rparr>"

text \<open>
  A directory entry holds a \<open>ushort\<close>, so it names one of \<open>2 ^ 16\<close> inodes.
  \<open>main\<close> gives the traversal this depth and one more; the depth is never
  used up (\<open>main_returns\<close> below).
\<close>
definition max_depth :: nat where
  "max_depth = 2 ^ 16 + 1"

text \<open>
  \<open>main\<close>, given \<open>argc\<close> and what \<open>fopen(argv[1], "rb")\<close> returns.  Both
  \<open>malloc\<close> calls are taken to succeed; each table has as many cells as its
  \<open>uint\<close> byte count holds, all zero after \<open>memset\<close>.  After \<open>fopen\<close> has
  failed the next statement hands the \<open>NULL\<close> stream to \<open>fseek\<close>.
\<close>
definition main :: "int \<Rightarrow> image option \<Rightarrow> run option" where
  "main argc file =
     (if argc \<noteq> 2 then Some (Exited (say Usage start) 1)
      else case file of
        None \<Rightarrow> Some (Faulted (say InvalidImage start))
      | Some img \<Rightarrow>
         (let st0 = (if BSIZE + sizeof_superblock \<le> img_size img then start
                     else say NoSuperblock start);
              g = layout (read_sb img);
              st1 = st0\<lparr> inode_cap := unat (sb_ninodes (sb g) * word_of_nat BSIZE) div sizeof_uint,
                         block_cap := unat (nblocks g * word_of_nat BSIZE) div sizeof_uint \<rparr>
          in case rinode img g 1 of
               None \<Rightarrow> Some (Exited st1 1)
             | Some root_inode \<Rightarrow>
                 if sint (d_type root_inode) \<noteq> T_DIR
                 then Some (Exited (say RootMissing st1) 1)
                 else (case rblock img (d_addrs root_inode 0) of
                         None \<Rightarrow> Some (Exited st1 1)
                       | Some buf \<Rightarrow>
                           if de_inum (rdirent 1 buf) \<noteq> 1
                           then Some (Exited (say RootMissing st1) 1)
                           else (case recurse_dir max_depth img g root_inode 1 st1 of
                                   Some (Cont st2) \<Rightarrow>
                                     (case inode_scan img g 2 st2 of
                                        Cont st3 \<Rightarrow>
                                          (case bitmap_scan img g (unat (nmeta g)) st3 of
                                             Cont st4 \<Rightarrow> Some (Exited st4 0)
                                           | r \<Rightarrow> Some r)
                                      | r \<Rightarrow> Some r)
                                 | r \<Rightarrow> r))))"

text \<open>What a user of the checker sees of a run: the lines printed and the
  exit status, when the process exits.\<close>
fun report :: "run option \<Rightarrow> (diag list \<times> int) option" where
  "report (Some (Exited st code)) = Some (out st, code)"
| "report _ = None"

subsection \<open>Small images\<close>

text \<open>
  An image file of a given length whose bytes are zero except at the listed
  offsets.  All the images below have the superblock in block 1, no log, the
  inode table in block 2, the bitmap in block 3 and the root directory in
  block 4, so that \<open>nmeta = 4\<close>.
\<close>
definition image_of :: "nat \<Rightarrow> (nat \<times> byte) list \<Rightarrow> image" where
  "image_of n bs =
     \<lparr> img_size = n,
       img_byte = (\<lambda>off. case map_of bs off of None \<Rightarrow> 0 | Some b \<Rightarrow> b) \<rparr>"

text \<open>The root directory alone, with \<open>.\<close> and \<open>..\<close>; blocks 0 to 4 marked in the bitmap.\<close>
definition img_root_only :: image where
  "img_root_only = image_of 6144
    [(512, 12), (516, 8), (520, 4), (528, 2), (532, 2), (536, 3), (1088, 1),
     (1094, 1), (1096, 32), (1100, 4), (1536, 31), (2048, 1), (2050, 46),
     (2064, 1), (2066, 46), (2067, 46)]"

text \<open>The root holds a file \<open>f\<close> (inode 2) and a directory \<open>d\<close> (inode 3); both have
  block 5 as their first address, and block 5 holds the \<open>.\<close> and \<open>..\<close> of \<open>d\<close>.\<close>
definition img_shared_block :: image where
  "img_shared_block = image_of 6144
    [(512, 12), (516, 8), (520, 4), (528, 2), (532, 2), (536, 3), (1088, 1),
     (1094, 1), (1096, 64), (1100, 4), (1152, 2), (1158, 1), (1161, 2),
     (1164, 5), (1216, 1), (1222, 1), (1224, 32), (1228, 5), (1536, 63),
     (2048, 1), (2050, 46), (2064, 1), (2066, 46), (2067, 46), (2080, 2),
     (2082, 102), (2096, 3), (2098, 100), (2560, 3), (2562, 46), (2576, 1),
     (2578, 46), (2579, 46)]"

text \<open>The root holds a file \<open>f\<close> (inode 2) with direct addresses 5 to 16 and
  block 5 again as its indirect address.\<close>
definition img_indirect_twice :: image where
  "img_indirect_twice = image_of 12288
    [(512, 24), (516, 20), (520, 4), (528, 2), (532, 2), (536, 3), (1088, 1),
     (1094, 1), (1096, 48), (1100, 4), (1152, 2), (1158, 1), (1161, 24),
     (1164, 5), (1168, 6), (1172, 7), (1176, 8), (1180, 9), (1184, 10),
     (1188, 11), (1192, 12), (1196, 13), (1200, 14), (1204, 15), (1208, 16),
     (1212, 5), (1536, 255), (1537, 255), (1538, 1), (2048, 1), (2050, 46),
     (2064, 1), (2066, 46), (2067, 46), (2080, 2), (2082, 102)]"

text \<open>The same file with block 17 as its indirect address; the bitmap marks
  blocks 0 to 16 only.\<close>
definition img_indirect_free :: image where
  "img_indirect_free = image_of 12288
    [(512, 24), (516, 20), (520, 4), (528, 2), (532, 2), (536, 3), (1088, 1),
     (1094, 1), (1096, 48), (1100, 4), (1152, 2), (1158, 1), (1161, 24),
     (1164, 5), (1168, 6), (1172, 7), (1176, 8), (1180, 9), (1184, 10),
     (1188, 11), (1192, 12), (1196, 13), (1200, 14), (1204, 15), (1208, 16),
     (1212, 17), (1536, 255), (1537, 255), (1538, 1), (2048, 1), (2050, 46),
     (2064, 1), (2066, 46), (2067, 46), (2080, 2), (2082, 102)]"

text \<open>The same file with block 21 as its indirect address, where the superblock
  has \<open>nblocks = 20\<close>; the bitmap marks blocks 0 to 16 and 21.\<close>
definition img_indirect_outside :: image where
  "img_indirect_outside = image_of 12288
    [(512, 24), (516, 20), (520, 4), (528, 2), (532, 2), (536, 3), (1088, 1),
     (1094, 1), (1096, 48), (1100, 4), (1152, 2), (1158, 1), (1161, 24),
     (1164, 5), (1168, 6), (1172, 7), (1176, 8), (1180, 9), (1184, 10),
     (1188, 11), (1192, 12), (1196, 13), (1200, 14), (1204, 15), (1208, 16),
     (1212, 21), (1536, 255), (1537, 255), (1538, 33), (2048, 1), (2050, 46),
     (2064, 1), (2066, 46), (2067, 46), (2080, 2), (2082, 102)]"

text \<open>The image of the root directory alone, with a superblock that declares
  zero inodes.\<close>
definition img_no_inodes :: image where
  "img_no_inodes = image_of 6144
    [(512, 12), (516, 8), (528, 2), (532, 2), (536, 3), (1088, 1), (1094, 1),
     (1096, 32), (1100, 4), (1536, 31), (2048, 1), (2050, 46), (2064, 1),
     (2066, 46), (2067, 46)]"

text \<open>The root directory with a third entry \<open>r\<close> that names inode 1, the root.\<close>
definition img_root_loop :: image where
  "img_root_loop = image_of 6144
    [(512, 12), (516, 8), (520, 4), (528, 2), (532, 2), (536, 3), (1088, 1),
     (1094, 1), (1096, 48), (1100, 4), (1536, 31), (2048, 1), (2050, 46),
     (2064, 1), (2066, 46), (2067, 46), (2080, 1), (2082, 114)]"

text \<open>An image with the same superblock as \<open>img_no_inodes\<close> and nothing else.\<close>
definition img_blank :: image where
  "img_blank = image_of 6144
    [(512, 12), (516, 8), (528, 2), (532, 2), (536, 3)]"

text \<open>The root has two data blocks, 4 and 5.  Block 5 is also the first data
  block of the directory inode 2: its slot 0 holds \<open>.\<close> with inode number 2,
  its slot 1 holds \<open>..\<close> with inode number 0.  Block 4 holds the \<open>.\<close> and \<open>..\<close>
  of the root and nothing else.\<close>
definition img_dot_counted :: image where
  "img_dot_counted = image_of 6144
    [(512, 12), (516, 8), (520, 4), (528, 2), (532, 2), (536, 3), (1088, 1),
     (1094, 1), (1097, 4), (1100, 4), (1104, 5), (1152, 1), (1158, 1), (1161, 2),
     (1164, 5), (1536, 63), (2048, 1), (2050, 46), (2064, 1), (2066, 46),
     (2067, 46), (2560, 2), (2562, 46), (2578, 46), (2579, 46)]"

text \<open>The bytes of \<open>img_root_only\<close> in a file of \<open>2 ^ 32 + 6144\<close> bytes whose
  superblock declares block \<open>2 ^ 23 + 3\<close> as the start of the bitmap.  That
  block, at byte \<open>2 ^ 32 + 1536\<close>, is inside the file and holds zeros; block 3,
  at byte 1536, holds the byte 31.\<close>
definition img_far_bitmap :: image where
  "img_far_bitmap = image_of 4294973440
    [(512, 12), (516, 8), (520, 4), (528, 2), (532, 2), (536, 3), (538, 128),
     (1088, 1), (1094, 1), (1096, 32), (1100, 4), (1536, 31), (2048, 1), (2050, 46),
     (2064, 1), (2066, 46), (2067, 46)]"

text \<open>The superblock \<open>mkfs\<close> of xv6 writes for its default image: 1000 blocks,
  200 inodes, 30 log blocks.\<close>
definition sb_xv6 :: superblock where
  "sb_xv6 = \<lparr> sb_size = 1000, sb_nblocks = 941, sb_ninodes = 200, sb_nlog = 30,
              sb_logstart = 2, sb_inodestart = 32, sb_bmapstart = 58 \<rparr>"

text \<open>An inode with one direct address, as inode 2 of \<open>img_shared_block\<close>.\<close>
definition one_block_file :: dinode where
  "one_block_file = \<lparr> d_type = 2, d_nlink = 1, d_addrs = (\<lambda>k. if k = 0 then 5 else 0) \<rparr>"

subsection \<open>Notions of the specification\<close>

text \<open>What the spec states for the layout: both counts rounded up.\<close>
definition ceil_div :: "nat \<Rightarrow> nat \<Rightarrow> nat" where
  "ceil_div a b = (a + b - 1) div b"

text \<open>The state a part of the program ends in.\<close>
fun state_of :: "run \<Rightarrow> walk" where
  "state_of (Cont st) = st"
| "state_of (Exited st code) = st"
| "state_of (Faulted st) = st"

text \<open>The steps of a run that has ended.\<close>
fun run_steps :: "run option \<Rightarrow> event list" where
  "run_steps (Some r) = steps (state_of r)"
| "run_steps None = []"

text \<open>Inode \<open>n\<close> can be named by a directory entry and is a directory on disk.\<close>
definition is_dir :: "image \<Rightarrow> globals \<Rightarrow> uint \<Rightarrow> bool" where
  "is_dir img g n \<longleftrightarrow>
     unat n < 2 ^ 16 \<and>
     (case rinode img g n of None \<Rightarrow> False | Some d \<Rightarrow> sint (d_type d) = T_DIR)"

text \<open>How often \<open>recurse_dir\<close> was called for inode \<open>n\<close>.\<close>
definition entered :: "event list \<Rightarrow> uint \<Rightarrow> nat" where
  "entered evs n = count_list evs (Enter n)"

text \<open>The run ended with \<open>exit(1)\<close> right after the report "directory appears more
  than once": the last step is the increment for a directory whose count now
  exceeds 1, and no call of \<open>recurse_dir\<close> follows it.\<close>
definition halted_dup :: "image \<Rightarrow> globals \<Rightarrow> run \<Rightarrow> bool" where
  "halted_dup img g r \<longleftrightarrow>
     (\<exists>st d i s t. r = Exited st 1 \<and> out st \<noteq> [] \<and> last (out st) = DirTwice \<and>
        steps st \<noteq> [] \<and> last (steps st) = Count d i s t \<and>
        is_dir img g t \<and> 1 < inode_refs st (unat t))"


text \<open>The number of increments recorded for the cell \<open>k\<close> of \<open>inode_refs\<close>.\<close>
definition counted :: "event list \<Rightarrow> nat \<Rightarrow> nat" where
  "counted evs k =
     length (filter (\<lambda>e. case e of Count d i s t \<Rightarrow> unat t = k | _ \<Rightarrow> False) evs)"




text \<open>
  The entries of a directory on disk that count as references, read off the
  image alone.  \<open>entries_from buf s\<close> lists the inode numbers of the entries
  of one block from slot \<open>s\<close> up to the first entry with inode number 0 or the
  end of the block.  \<open>block_entries img dir i\<close> lists those of the data blocks
  \<open>addrs[i]\<close>, \<open>addrs[i + 1]\<close>, ... of a directory up to the first zero address:
  from slot 2 in the block \<open>addrs[0]\<close> and from slot 0 in the others.
  \<open>entries_of img g n\<close> is that list for the directory inode \<open>n\<close>.
\<close>
function entries_from :: "buffer \<Rightarrow> nat \<Rightarrow> uint list" where
  "entries_from buf s =
     (if s < BSIZE div sizeof_dirent
      then (if de_inum (rdirent s buf) = 0 then []
            else ucast (de_inum (rdirent s buf)) # entries_from buf (s + 1))
      else [])"
  by pat_completeness auto
termination
  by (relation "measure (\<lambda>(buf, s). BSIZE div sizeof_dirent - s)") auto

function block_entries :: "image \<Rightarrow> dinode \<Rightarrow> nat \<Rightarrow> uint list" where
  "block_entries img dir i =
     (if i < NDIRECT \<and> d_addrs dir i \<noteq> 0
      then (case rblock img (d_addrs dir i) of
              None \<Rightarrow> []
            | Some buf \<Rightarrow> entries_from buf (if i = 0 then 2 else 0))
           @ block_entries img dir (i + 1)
      else [])"
  by pat_completeness auto
termination
  by (relation "measure (\<lambda>(img, dir, i). NDIRECT - i)") auto

definition entries_of :: "image \<Rightarrow> globals \<Rightarrow> uint \<Rightarrow> uint list" where
  "entries_of img g n =
     (case rinode img g n of None \<Rightarrow> [] | Some dir \<Rightarrow> block_entries img dir 0)"

text \<open>How many entries of a list name the inode with index \<open>k\<close>.\<close>
definition naming :: "uint list \<Rightarrow> nat \<Rightarrow> nat" where
  "naming ts k = length (filter (\<lambda>t. unat t = k) ts)"

text \<open>The directories reachable from the root, inode 1, through such entries.\<close>
inductive_set reachable :: "image \<Rightarrow> globals \<Rightarrow> uint set"
  for img :: image and g :: globals where
  root: "1 \<in> reachable img g"
| step: "n \<in> reachable img g \<Longrightarrow> t \<in> set (entries_of img g n) \<Longrightarrow> is_dir img g t \<Longrightarrow>
         t \<in> reachable img g"

subsection \<open>Notions of the proofs\<close>

text \<open>The directories no entry has been counted for: the measure of the
  traversal.\<close>
definition zero_dirs :: "image \<Rightarrow> globals \<Rightarrow> walk \<Rightarrow> uint set" where
  "zero_dirs img g st = {n. is_dir img g n \<and> inode_refs st (unat n) = 0}"

text \<open>How often inode \<open>n\<close> may have been entered: once for each counted entry of
  a directory, and once more for the root, which \<open>main\<close> enters itself.\<close>
definition allowance :: "image \<Rightarrow> globals \<Rightarrow> walk \<Rightarrow> uint \<Rightarrow> nat" where
  "allowance img g st n =
     (if is_dir img g n then unat (inode_refs st (unat n)) else 0) + (if n = 1 then 1 else 0)"

text \<open>No directory has a count above 1.\<close>
definition dirs_once :: "image \<Rightarrow> globals \<Rightarrow> walk \<Rightarrow> bool" where
  "dirs_once img g st \<longleftrightarrow> (\<forall>n. is_dir img g n \<longrightarrow> inode_refs st (unat n) \<le> 1)"

text \<open>The state just before a call of \<open>recurse_dir\<close> for \<open>inum\<close>.\<close>
definition may_enter :: "image \<Rightarrow> globals \<Rightarrow> walk \<Rightarrow> uint \<Rightarrow> bool" where
  "may_enter img g st inum \<longleftrightarrow>
     dirs_once img g st \<and>
     (\<forall>n. entered (steps st) n + (if n = inum then 1 else 0) \<le> allowance img g st n)"

text \<open>The invariant of the traversal between two steps.\<close>
definition good :: "image \<Rightarrow> globals \<Rightarrow> walk \<Rightarrow> bool" where
  "good img g st \<longleftrightarrow>
     dirs_once img g st \<and> (\<forall>n. entered (steps st) n \<le> allowance img g st n)"

text \<open>No inode was entered twice, the root apart, which was entered at most
  twice.\<close>
definition enter_bound :: "walk \<Rightarrow> bool" where
  "enter_bound st \<longleftrightarrow> (\<forall>n. entered (steps st) n \<le> (if n = 1 then 2 else 1))"

text \<open>What a part of the traversal started in \<open>st\<close> guarantees about its outcome.\<close>
definition run_ok :: "image \<Rightarrow> globals \<Rightarrow> walk \<Rightarrow> run \<Rightarrow> bool" where
  "run_ok img g st r \<longleftrightarrow>
     enter_bound (state_of r) \<and>
     (case r of
        Cont st' \<Rightarrow> good img g st' \<and> zero_dirs img g st' \<subseteq> zero_dirs img g st
      | _ \<Rightarrow> \<not> dirs_once img g (state_of r) \<longrightarrow> halted_dup img g r)"

text \<open>The part returns, with such an outcome.\<close>
definition returns_ok :: "image \<Rightarrow> globals \<Rightarrow> walk \<Rightarrow> run option \<Rightarrow> bool" where
  "returns_ok img g st res \<longleftrightarrow> (\<exists>r. res = Some r \<and> run_ok img g st r)"

text \<open>The outcome has the reference counts and the steps of the state \<open>st\<close>.\<close>
definition same_walk :: "walk \<Rightarrow> run \<Rightarrow> bool" where
  "same_walk st r \<longleftrightarrow> inode_refs (state_of r) = inode_refs st \<and> steps (state_of r) = steps st
      \<and> inode_cap (state_of r) = inode_cap st"

text \<open>The outcome has the reference counts of \<open>st\<close> and has added bitmap lookups
  only.\<close>
definition only_lookups :: "walk \<Rightarrow> run \<Rightarrow> bool" where
  "only_lookups st r \<longleftrightarrow>
     inode_refs (state_of r) = inode_refs st \<and>
     (\<exists>evs. steps (state_of r) = steps st @ evs \<and> set evs \<subseteq> range Lookup)"

text \<open>The rest of \<open>main\<close> after the traversal has returned.\<close>
definition after_walk :: "image \<Rightarrow> globals \<Rightarrow> walk \<Rightarrow> run" where
  "after_walk img g st2 =
     (case inode_scan img g 2 st2 of
        Cont st3 \<Rightarrow>
          (case bitmap_scan img g (unat (nmeta g)) st3 of
             Cont st4 \<Rightarrow> Exited st4 0
           | r \<Rightarrow> r)
      | r \<Rightarrow> r)"


text \<open>The inodes \<open>recurse_dir\<close> was called for, in the order of the calls.\<close>
fun visits :: "event list \<Rightarrow> uint list" where
  "visits [] = []"
| "visits (Enter n # evs) = n # visits evs"
| "visits (Count d i s t # evs) = visits evs"
| "visits (Lookup j # evs) = visits evs"

text \<open>How many entries of the listed directories name the inode with index \<open>k\<close>.\<close>
definition scanned_naming :: "image \<Rightarrow> globals \<Rightarrow> uint list \<Rightarrow> nat \<Rightarrow> nat" where
  "scanned_naming img g ns k = sum_list (map (\<lambda>n. naming (entries_of img g n) k) ns)"


text \<open>One of the entries still to scan names a directory that has been counted.\<close>
definition blocked :: "image \<Rightarrow> globals \<Rightarrow> uint list \<Rightarrow> walk \<Rightarrow> bool" where
  "blocked img g ts st \<longleftrightarrow> (\<exists>t\<in>set ts. is_dir img g t \<and> t \<notin> zero_dirs img g st)"


text \<open>The outcome is not an exit with a status other than 1.\<close>
definition fails :: "run \<Rightarrow> bool" where
  "fails r = (case r of Exited st c \<Rightarrow> c = 1 | _ \<Rightarrow> True)"

section \<open>Properties\<close>

subsection \<open>Evaluation\<close>

text \<open>The equations of the recursive functions are unfolded one step at a time
  in the proofs and all the way on the small images.\<close>
declare recurse_dir.simps [simp del] dir_blocks.simps [simp del] dir_entries.simps [simp del]
  pf_direct.simps [simp del] pf_indirect.simps [simp del] scan_addrs.simps [simp del]
  inode_scan.simps [simp del] bitmap_scan.simps [simp del]
  entries_from.simps [simp del] block_entries.simps [simp del]

lemmas header_consts = BSIZE_def NDIRECT_def NINDIRECT_def sizeof_uint_def
  sizeof_dinode_def IPB_def DIRSIZ_def sizeof_dirent_def sizeof_superblock_def
  T_DIR_def T_FILE_def T_DEV_def max_depth_def

lemmas run_defs = main_def layout_def read_sb_def image_of_def rd32_def rd16_def
  rblock_def rinode_def dinode_at_def rdirent_def strcmp_ne_def dot_def dotdot_def
  bmapval_def check_bp_def say_def logstep_def bump_inode_def bump_block_def
  start_def process_file_def pf_tail_def Let_def
  recurse_dir.simps dir_blocks.simps dir_entries.simps pf_direct.simps
  pf_indirect.simps scan_addrs.simps inode_scan.simps bitmap_scan.simps

lemma upt_DIRSIZ: "[0..<14] = [0, 1, 2, 3, 4, 5, 6, 7, 8, 9, 10, 11, 12, 13::nat]"
  by (simp add: upt_rec)

lemma IPB_eq: "IPB = 8"
  by (simp add: IPB_def BSIZE_def sizeof_dinode_def sizeof_uint_def NDIRECT_def)

subsection \<open>Reports that do not end the run\<close>

text \<open>
  C1.  The claim: every report of a violation ends the process at once with a
  status other than 0, in particular the duplicate-use report on the indirect
  block in \<open>process_file\<close> and the bitmap report on the indirect address in
  the inode scan.  The code prints these two reports and goes on: on
  \<open>img_indirect_twice\<close> (indirect block equal to the first direct block) it
  prints "direct address used more than once" and exits with status 0; on
  \<open>img_indirect_free\<close> (indirect block free in the bitmap) it prints "address
  used by inode but marked free in bitmap" and exits with status 0.
\<close>
theorem indirect_reports_do_not_exit:
  "report (main 2 (Some img_indirect_twice)) = Some ([DirectTwice], 0) \<and>
   report (main 2 (Some img_indirect_free)) = Some ([FreeInBitmap], 0)"
proof
  show "report (main 2 (Some img_indirect_twice)) = Some ([DirectTwice], 0)"
    by (simp add: run_defs header_consts img_indirect_twice_def upt_DIRSIZ)
  show "report (main 2 (Some img_indirect_free)) = Some ([FreeInBitmap], 0)"
    by (simp add: run_defs header_consts img_indirect_free_def upt_DIRSIZ)
qed

subsection \<open>The range check before the indirect block\<close>

text \<open>
  C2.  The claim: the range check \<open>process_file\<close> makes before it counts the
  indirect block tests the indirect pointer and fails exactly when that
  pointer lies outside the data region.  The code tests \<open>bp\<close>, the last direct
  address, which has passed the same test already.  In \<open>img_indirect_outside\<close>
  inode 2 has the indirect address 21, which \<open>check_bp\<close> rejects; the checker
  prints nothing and exits with status 0.
\<close>
theorem indirect_pointer_not_validated:
  "map_option (\<lambda>f. d_addrs f NDIRECT)
     (rinode img_indirect_outside (layout (read_sb img_indirect_outside)) 2) = Some 21 \<and>
   \<not> check_bp (layout (read_sb img_indirect_outside)) 21 \<and>
   report (main 2 (Some img_indirect_outside)) = Some ([], 0)"
proof (intro conjI)
  show "map_option (\<lambda>f. d_addrs f NDIRECT)
     (rinode img_indirect_outside (layout (read_sb img_indirect_outside)) 2) = Some 21"
    by (simp add: run_defs header_consts img_indirect_outside_def)
  show "\<not> check_bp (layout (read_sb img_indirect_outside)) 21"
    by (simp add: run_defs header_consts img_indirect_outside_def)
  show "report (main 2 (Some img_indirect_outside)) = Some ([], 0)"
    by (simp add: run_defs header_consts img_indirect_outside_def upt_DIRSIZ)
qed

subsection \<open>Invalid invocations\<close>

text \<open>
  C3.  The claim: the process exits with status 1 on every invalid
  invocation, also when the image file cannot be opened.  The code returns 1
  for a wrong argument count; after a failed \<open>fopen\<close> it prints "invalid image
  file." and goes on to \<open>fseek\<close> on the \<open>NULL\<close> stream, so the run does not end
  with \<open>exit(1)\<close>.
\<close>
theorem unopenable_image_no_exit:
  "main 2 None = Some (Faulted (say InvalidImage start)) \<and>
   report (main 2 None) = None \<and>
   report (main 3 None) = Some ([Usage], 1)"
  by (simp add: main_def say_def start_def)

subsection \<open>A block claimed by a file and a directory\<close>

text \<open>
  C4.  The claim: whenever a data block appears in the address lists of two
  inodes the checker reports a duplicate use and exits with a status other
  than 0, also when a claimant is a directory.  \<open>recurse_dir\<close> increments
  \<open>block_refs\<close> without the test \<open>process_file\<close> makes.  In \<open>img_shared_block\<close>
  the file inode 2 and the directory inode 3 both have block 5 as first
  address; the checker prints nothing and exits with status 0.
\<close>
theorem shared_directory_block_accepted:
  "map_option (\<lambda>f. (sint (d_type f), d_addrs f 0))
     (rinode img_shared_block (layout (read_sb img_shared_block)) 2) = Some (T_FILE, 5) \<and>
   map_option (\<lambda>f. (sint (d_type f), d_addrs f 0))
     (rinode img_shared_block (layout (read_sb img_shared_block)) 3) = Some (T_DIR, 5) \<and>
   report (main 2 (Some img_shared_block)) = Some ([], 0)"
proof (intro conjI)
  show "map_option (\<lambda>f. (sint (d_type f), d_addrs f 0))
     (rinode img_shared_block (layout (read_sb img_shared_block)) 2) = Some (T_FILE, 5)"
    by (simp add: run_defs header_consts img_shared_block_def)
  show "map_option (\<lambda>f. (sint (d_type f), d_addrs f 0))
     (rinode img_shared_block (layout (read_sb img_shared_block)) 3) = Some (T_DIR, 5)"
    by (simp add: run_defs header_consts img_shared_block_def)
  show "report (main 2 (Some img_shared_block)) = Some ([], 0)"
    by (simp add: run_defs header_consts img_shared_block_def upt_DIRSIZ)
qed

subsection \<open>Layout calculation\<close>

lemma unat_iblocks: "unat (iblocks (layout s)) = unat (sb_ninodes s) div 8 + 1"
proof -
  have "unat (sb_ninodes s div 8) = unat (sb_ninodes s) div 8"
    by (simp add: unat_div)
  moreover have "unat (sb_ninodes s) div 8 < 2 ^ 32 - 1"
    using unsigned_less [of "sb_ninodes s", where 'a = nat] by simp
  ultimately show ?thesis
    by (simp add: layout_def Let_def IPB_eq unat_word_ariths)
qed

lemma unat_bmapblocks: "unat (bmapblocks (layout s)) = unat (sb_size s) div 4096 + 1"
proof -
  have "unat (sb_size s div 4096) = unat (sb_size s) div 4096"
    by (simp add: unat_div)
  moreover have "unat (sb_size s) div 4096 < 2 ^ 32 - 1"
    using unsigned_less [of "sb_size s", where 'a = nat] by simp
  ultimately show ?thesis
    by (simp add: layout_def Let_def BSIZE_def unat_word_ariths)
qed

lemma unat_sum4: "unat (2 + a + b + c :: uint) = (2 + unat a + unat b + unat c) mod 2 ^ 32"
proof -
  have "unat (2 + a + b + c) = (unat (2 + a + b) + unat c) mod 2 ^ 32"
    by (simp only: unat_word_ariths(1)) simp
  also have "unat (2 + a + b) = (unat (2 + a) + unat b) mod 2 ^ 32"
    by (simp only: unat_word_ariths(1)) simp
  also have "unat (2 + a) = (2 + unat a) mod 2 ^ 32"
    by (simp only: unat_word_ariths(1)) simp
  finally show ?thesis by (simp add: mod_simps)
qed

lemma unat_nmeta:
  "unat (nmeta (layout s)) =
     (2 + unat (sb_nlog s) + unat (iblocks (layout s)) + unat (bmapblocks (layout s)))
       mod 2 ^ 32"
proof -
  have "nmeta (layout s) = 2 + sb_nlog s + iblocks (layout s) + bmapblocks (layout s)"
    by (simp add: layout_def Let_def)
  then show ?thesis by (simp only: unat_sum4)
qed

text \<open>
  C5, as the claim states it: the number of inode-table blocks is the inode
  count divided by \<open>IPB\<close> and rounded up.  For the superblock of the default
  xv6 image, with 200 inodes, the rounded-up quotient is 25 and the code
  computes 26.
\<close>
theorem layout_ceiling_counterexample:
  "unat (iblocks (layout sb_xv6)) = 26 \<and> ceil_div (unat (sb_ninodes sb_xv6)) IPB = 25"
  by (simp add: layout_def sb_xv6_def IPB_eq ceil_div_def)

text \<open>
  C5, amended: the number of inode-table blocks is the quotient of the inode
  count by \<open>IPB\<close>, rounded down, plus one; the number of bitmap blocks is the
  quotient of the total block count by the bits of a block, rounded down,
  plus one; the metadata count is 2 plus the log blocks plus these two, in
  32-bit unsigned arithmetic.
\<close>
theorem layout_counts:
  "unat (iblocks (layout s)) = unat (sb_ninodes s) div IPB + 1 \<and>
   unat (bmapblocks (layout s)) = unat (sb_size s) div (BSIZE * 8) + 1 \<and>
   unat (nmeta (layout s)) =
     (2 + unat (sb_nlog s) + unat (iblocks (layout s)) + unat (bmapblocks (layout s)))
       mod 2 ^ 32"
  using unat_iblocks [of s] unat_bmapblocks [of s] unat_nmeta [of s]
  by (simp add: IPB_eq BSIZE_def)

subsection \<open>A superblock that declares no inodes\<close>

text \<open>
  C6, as the claim states it: on a superblock declaring zero inodes the
  checker fails with a layout error before any inode lookup.  The superblock
  of \<open>img_no_inodes\<close> declares zero inodes; the checker prints nothing and
  exits with status 0.
\<close>
theorem zero_inodes_accepted:
  "sb_ninodes (read_sb img_no_inodes) = 0 \<and>
   report (main 2 (Some img_no_inodes)) = Some ([], 0)"
proof
  show "sb_ninodes (read_sb img_no_inodes) = 0"
    by (simp add: run_defs header_consts img_no_inodes_def)
  show "report (main 2 (Some img_no_inodes)) = Some ([], 0)"
    by (simp add: run_defs header_consts img_no_inodes_def upt_DIRSIZ)
qed

text \<open>
  C6, amended: on a superblock declaring zero inodes the checker raises no
  layout error.  The layout calculation gives one inode-table block and the
  run goes on to the lookup of inode 1: it exits with status 1 and no report
  when that block cannot be read, and with the report "root directory does
  not exist" when the inode read is not a directory.
\<close>
theorem zero_inodes_no_layout_error:
  assumes "sb_ninodes (read_sb img) = 0"
    and "BSIZE + sizeof_superblock \<le> img_size img"
  shows "iblocks (layout (read_sb img)) = 1 \<and>
    (rinode img (layout (read_sb img)) 1 = None \<longrightarrow>
       report (main 2 (Some img)) = Some ([], 1)) \<and>
    (\<forall>root. rinode img (layout (read_sb img)) 1 = Some root \<and> sint (d_type root) \<noteq> T_DIR \<longrightarrow>
       report (main 2 (Some img)) = Some ([RootMissing], 1))"
proof (intro conjI allI impI)
  show "iblocks (layout (read_sb img)) = 1"
    using assms(1) by (simp add: layout_def Let_def)
next
  assume "rinode img (layout (read_sb img)) 1 = None"
  then show "report (main 2 (Some img)) = Some ([], 1)"
    using assms(2) by (simp add: main_def Let_def start_def)
next
  fix root
  assume "rinode img (layout (read_sb img)) 1 = Some root \<and> sint (d_type root) \<noteq> T_DIR"
  then show "report (main 2 (Some img)) = Some ([RootMissing], 1)"
    using assms(2) by (simp add: main_def Let_def start_def say_def)
qed

theorem zero_inodes_no_layout_error_witness:
  "sb_ninodes (read_sb img_blank) = 0 \<and>
   BSIZE + sizeof_superblock \<le> img_size img_blank \<and>
   iblocks (layout (read_sb img_blank)) = 1 \<and>
   report (main 2 (Some img_blank)) = Some ([RootMissing], 1)"
proof -
  have a: "sb_ninodes (read_sb img_blank) = 0"
    by (simp add: run_defs header_consts img_blank_def)
  have b: "BSIZE + sizeof_superblock \<le> img_size img_blank"
    by (simp add: image_of_def header_consts img_blank_def)
  have c: "\<exists>root. rinode img_blank (layout (read_sb img_blank)) 1 = Some root
              \<and> sint (d_type root) \<noteq> T_DIR"
    by (simp add: run_defs header_consts img_blank_def)
  from zero_inodes_no_layout_error [OF a b] c show ?thesis
    using a b by blast
qed

subsection \<open>The bitmap lookup\<close>

lemma bit_extract:
  "(ucast (drop_bit k (w :: byte)) AND (1 :: uint)) = (if bit w k then 1 else 0)"
  by (rule bit_word_eqI) (auto simp add: bit_simps intro!: gr0I)

lemma split8: "(4096 * q + r) div 8 = 512 * q + r div (8::nat)"
  by simp

lemma bitmap_byte_offset:
  "(s + b div 4096) * 512 + (b mod 4096) div 8 = s * 512 + b div (8::nat)"
proof -
  have "b div 8 = (4096 * (b div 4096) + b mod 4096) div 8" by simp
  then show ?thesis by (simp only: split8) simp
qed

lemma bmapval_nat:
  assumes "unat (bmapstart g) + unat b div 4096 < 8388608"
  shows "bmapval img g b =
     (if (unat (bmapstart g) + unat b div 4096) * 512 + 512 \<le> img_size img
      then Some (if bit (img_byte img (unat (bmapstart g) * 512 + unat b div 8)) (unat b mod 8)
                 then 1 else 0)
      else None)"
proof -
  define blk :: uint where "blk = (b div 8) div 512"
  define bt :: uint where "bt = b - 4096 * blk"
  define N where "N = unat ((blk + bmapstart g) * 512)"
  define J where "J = unat (bt div 8)"
  define K where "K = unat (bt mod 8)"
  have blk: "unat blk = unat b div 4096"
    by (simp add: blk_def unat_div div_mult2_eq)
  have le: "4096 * (unat b div 4096) \<le> unat b" by simp
  have m: "unat (4096 * blk) = 4096 * (unat b div 4096)"
    using le unsigned_less [of b, where 'a = nat]
      unat_mult_lem [THEN iffD1, of 4096 blk]
    by (simp add: blk)
  have bt: "unat bt = unat b mod 4096"
    unfolding bt_def using m le
    by (simp add: unat_sub word_le_nat_alt minus_mult_div_eq_mod mult.commute)
  have sum: "unat (blk + bmapstart g) = unat (bmapstart g) + unat b div 4096"
    using assms unat_add_lem [THEN iffD1, of blk "bmapstart g"] by (simp add: blk)
  have N: "N = (unat (bmapstart g) + unat b div 4096) * 512"
    unfolding N_def
    using assms unat_mult_lem [THEN iffD1, of "blk + bmapstart g" 512] by (simp add: sum)
  have J: "J = unat b mod 4096 div 8"
    by (simp add: J_def unat_div bt)
  have K: "K = unat b mod 8"
    by (simp add: K_def unat_mod bt mod_mod_cancel)
  have A: "N + J = unat (bmapstart g) * 512 + unat b div 8"
    unfolding N J by (rule bitmap_byte_offset)
  have "bmapval img g b =
      (if N + 512 \<le> img_size img
       then Some (ucast (drop_bit K (img_byte img (N + J))) AND 1) else None)"
    by (simp add: bmapval_def rblock_def BSIZE_def Let_def blk_def bt_def N_def J_def K_def)
  then have "bmapval img g b =
      (if N + 512 \<le> img_size img
       then Some (if bit (img_byte img (unat (bmapstart g) * 512 + unat b div 8)) K
                  then 1 else 0) else None)"
    by (simp only: A bit_extract)
  then show ?thesis
    by (simp only: N K)
qed

text \<open>
  C8, as the claim states it: for every block number \<open>b\<close>, \<open>bmapval\<close> returns
  bit \<open>b mod 8\<close> of byte \<open>b div 8\<close> of the region that starts at block
  \<open>bmapstart\<close>.  \<open>rblock\<close> computes the byte offset of a block as a \<open>uint\<close>.
  The superblock of \<open>img_far_bitmap\<close> declares \<open>bmapstart = 2 ^ 23 + 3\<close>; the
  bitmap block for block number 4 starts at byte \<open>2 ^ 32 + 1536\<close>, inside the
  image, and the bit for block 4 there is clear.  The offset wraps to 1536 and
  \<open>bmapval\<close> returns bit 4 of the first byte of block 3, which is set.
\<close>
theorem bitmap_offset_wraps:
  "bmapstart (layout (read_sb img_far_bitmap)) = 8388611 \<and>
   (unat (bmapstart (layout (read_sb img_far_bitmap))) + unat (4 :: uint) div (BSIZE * 8) + 1) * BSIZE
     \<le> img_size img_far_bitmap \<and>
   \<not> bit (img_byte img_far_bitmap
           (unat (bmapstart (layout (read_sb img_far_bitmap))) * BSIZE + unat (4 :: uint) div 8))
         (unat (4 :: uint) mod 8) \<and>
   bit (img_byte img_far_bitmap (3 * BSIZE + unat (4 :: uint) div 8)) (unat (4 :: uint) mod 8) \<and>
   bmapval img_far_bitmap (layout (read_sb img_far_bitmap)) 4 = Some 1"
  by (simp add: run_defs header_consts img_far_bitmap_def)

text \<open>
  C8, amended: for every block number \<open>b\<close> whose bitmap block has a byte
  offset that fits the \<open>uint\<close> the code computes it in, \<open>bmapval\<close> returns
  bit \<open>b mod 8\<close> of byte \<open>b div 8\<close> of the region of the image that starts at
  block \<open>bmapstart\<close>; the lookup ends the run with a read error when the
  image does not hold that whole block.
\<close>
theorem bmapval_reads_bit:
  assumes "unat (bmapstart g) + unat b div (BSIZE * 8) < 2 ^ 32 div BSIZE"
  shows "bmapval img g b =
     (if (unat (bmapstart g) + unat b div (BSIZE * 8) + 1) * BSIZE \<le> img_size img
      then Some (if bit (img_byte img (unat (bmapstart g) * BSIZE + unat b div 8)) (unat b mod 8)
                 then 1 else 0)
      else None)"
proof -
  have "unat (bmapstart g) + unat b div 4096 < 8388608"
    using assms by (simp add: BSIZE_def)
  from bmapval_nat [OF this, of img] show ?thesis
    by (simp add: BSIZE_def)
qed

theorem bmapval_reads_bit_witness:
  "unat (bmapstart (layout (read_sb img_root_only))) + unat (4 :: uint) div (BSIZE * 8)
     < 2 ^ 32 div BSIZE \<and>
   bmapval img_root_only (layout (read_sb img_root_only)) 4 = Some 1 \<and>
   bmapval img_root_only (layout (read_sb img_root_only)) 5 = Some 0"
proof -
  have g: "bmapstart (layout (read_sb img_root_only)) = 3"
    by (simp add: run_defs header_consts img_root_only_def)
  have s: "img_size img_root_only = 6144"
    by (simp add: img_root_only_def image_of_def)
  have y: "img_byte img_root_only 1536 = 31"
    by (simp add: img_root_only_def image_of_def)
  have a: "unat (bmapstart (layout (read_sb img_root_only))) + unat (4 :: uint) div (BSIZE * 8)
     < 2 ^ 32 div BSIZE"
    by (simp add: g BSIZE_def)
  have b: "unat (bmapstart (layout (read_sb img_root_only))) + unat (5 :: uint) div (BSIZE * 8)
     < 2 ^ 32 div BSIZE"
    by (simp add: g BSIZE_def)
  have "bmapval img_root_only (layout (read_sb img_root_only)) 4 = Some 1"
    using bmapval_reads_bit [OF a, of img_root_only] by (simp add: g BSIZE_def s y)
  moreover have "bmapval img_root_only (layout (read_sb img_root_only)) 5 = Some 0"
    using bmapval_reads_bit [OF b, of img_root_only] by (simp add: g BSIZE_def s y)
  ultimately show ?thesis using a by simp
qed

subsection \<open>The address loop of the inode scan\<close>

lemma scan_addrs_no_indirect:
  "i \<le> j \<Longrightarrow> j < NDIRECT \<Longrightarrow> d_addrs inode j = 0 \<Longrightarrow>
   \<exists>evs. steps (state_of (scan_addrs img g inode i st)) = steps st @ evs
         \<and> Lookup NDIRECT \<notin> set evs"
proof (induction img g inode i st rule: scan_addrs.induct)
  case (1 img g inode i st)
  have lt: "i < NDIRECT" using "1.prems" by simp
  note unf = scan_addrs.simps [of img g inode i st]
  show ?case
  proof (cases "d_addrs inode i = 0")
    case True
    then show ?thesis using lt by (simp add: unf)
  next
    case nz: False
    then have ij: "i \<noteq> j" using "1.prems" by auto
    then have notlast: "i \<noteq> NDIRECT - 1" and next_le: "i + 1 \<le> j"
      using "1.prems" by auto
    define st1 where "st1 = logstep (Lookup i) st"
    have s1: "steps st1 = steps st @ [Lookup i]"
      by (simp add: st1_def logstep_def)
    show ?thesis
    proof (cases "bmapval img g (d_addrs inode i)")
      case None
      then show ?thesis using lt nz s1 by (simp add: unf st1_def [symmetric] Let_def)
    next
      case (Some v)
      show ?thesis
      proof (cases "v = 0")
        case True
        then show ?thesis using lt nz s1 Some
          by (simp add: unf st1_def [symmetric] Let_def say_def)
      next
        case False
        from "1.IH"(2) [OF lt nz st1_def Some False notlast next_le "1.prems"(2,3)]
        obtain evs where "steps (state_of (scan_addrs img g inode (i + 1) st1)) = steps st1 @ evs"
          and "Lookup NDIRECT \<notin> set evs" by blast
        then show ?thesis using lt nz s1 Some False notlast
          by (simp add: unf st1_def [symmetric] Let_def)
      qed
    qed
  qed
qed

text \<open>
  C9.  In the inode scan of \<open>main\<close>, for an inode with a zero among its
  \<open>NDIRECT\<close> direct addresses, \<open>bmapval\<close> is never called for the indirect
  address: the loop leaves at the first zero direct address, and the lookup
  for \<open>addrs[NDIRECT]\<close> sits behind the last direct address.
\<close>
theorem scan_addrs_skips_indirect:
  assumes "\<exists>j<NDIRECT. d_addrs inode j = 0"
  shows "\<exists>evs. steps (state_of (scan_addrs img g inode 0 st)) = steps st @ evs
           \<and> Lookup NDIRECT \<notin> set evs"
  using assms scan_addrs_no_indirect [of 0 _ inode img g st] by blast

theorem scan_addrs_skips_indirect_witness:
  "(\<exists>j<NDIRECT. d_addrs one_block_file j = 0) \<and>
   steps (state_of (scan_addrs img_shared_block (layout (read_sb img_shared_block))
      one_block_file 0 start)) = [Lookup 0]"
proof -
  have a: "\<exists>j<NDIRECT. d_addrs one_block_file j = 0"
    by (rule exI [of _ 1]) (simp add: one_block_file_def NDIRECT_def)
  have "steps (state_of (scan_addrs img_shared_block (layout (read_sb img_shared_block))
      one_block_file 0 start)) = [Lookup 0]"
    using scan_addrs_skips_indirect [OF a, of img_shared_block "layout (read_sb img_shared_block)" start]
    by (simp add: run_defs header_consts img_shared_block_def one_block_file_def)
  with a show ?thesis by simp
qed

subsection \<open>State updates\<close>

lemma say_simps [simp]:
  "inode_refs (say d st) = inode_refs st" "steps (say d st) = steps st"
  "out (say d st) = out st @ [d]" "inode_cap (say d st) = inode_cap st"
  "block_refs (say d st) = block_refs st" "block_cap (say d st) = block_cap st"
  by (simp_all add: say_def)

lemma logstep_simps [simp]:
  "inode_refs (logstep e st) = inode_refs st" "steps (logstep e st) = steps st @ [e]"
  "out (logstep e st) = out st" "inode_cap (logstep e st) = inode_cap st"
  "block_refs (logstep e st) = block_refs st" "block_cap (logstep e st) = block_cap st"
  by (simp_all add: logstep_def)

lemma bump_block_simps [simp]:
  "inode_refs (bump_block k st) = inode_refs st" "steps (bump_block k st) = steps st"
  "out (bump_block k st) = out st" "inode_cap (bump_block k st) = inode_cap st"
  "block_cap (bump_block k st) = block_cap st"
  by (simp_all add: bump_block_def)

lemma bump_inode_simps [simp]:
  "inode_refs (bump_inode k st) = (inode_refs st)(k := inode_refs st k + 1)"
  "steps (bump_inode k st) = steps st"
  "out (bump_inode k st) = out st" "inode_cap (bump_inode k st) = inode_cap st"
  "block_refs (bump_inode k st) = block_refs st" "block_cap (bump_inode k st) = block_cap st"
  by (simp_all add: bump_inode_def)

lemma same_walk_simps [simp]:
  "same_walk st (Cont st') \<longleftrightarrow>
     inode_refs st' = inode_refs st \<and> steps st' = steps st \<and> inode_cap st' = inode_cap st"
  "same_walk st (Exited st' c) \<longleftrightarrow>
     inode_refs st' = inode_refs st \<and> steps st' = steps st \<and> inode_cap st' = inode_cap st"
  "same_walk st (Faulted st') \<longleftrightarrow>
     inode_refs st' = inode_refs st \<and> steps st' = steps st \<and> inode_cap st' = inode_cap st"
  by (simp_all add: same_walk_def)

subsection \<open>\<open>process_file\<close> leaves the inode counts and the steps alone\<close>

lemma pf_indirect_same: "same_walk st (pf_indirect g buf i st)"
proof (induction g buf i st rule: pf_indirect.induct)
  case (1 g buf i st)
  show ?case
    using "1.IH"
    by (subst pf_indirect.simps) (auto simp add: same_walk_def Let_def)
qed

lemma pf_tail_same: "same_walk st (pf_tail img g f bp st)"
  using pf_indirect_same [of "say DirectTwice (bump_block (unat (d_addrs f NDIRECT - nmeta g)) st)"]
    pf_indirect_same [of "bump_block (unat (d_addrs f NDIRECT - nmeta g)) st"]
  by (auto simp add: pf_tail_def same_walk_def Let_def split: option.splits)

lemma pf_direct_same: "same_walk st (pf_direct img g f i bp0 st)"
proof (induction img g f i bp0 st rule: pf_direct.induct)
  case (1 img g f i bp0 st)
  show ?case
    using "1.IH" pf_tail_same [of st img g f bp0]
    by (subst pf_direct.simps) (auto simp add: same_walk_def Let_def)
qed

lemma process_file_same: "same_walk st (process_file img g f st)"
  using pf_direct_same [of st img g f 0 0]
  by (auto simp add: process_file_def same_walk_def)

subsection \<open>The scans after the traversal add lookups only\<close>

lemma only_lookups_refl:
  "inode_refs (state_of r) = inode_refs st \<Longrightarrow> steps (state_of r) = steps st
     \<Longrightarrow> only_lookups st r"
  by (simp add: only_lookups_def)

lemma only_lookups_step:
  assumes "only_lookups st' r" and "inode_refs st' = inode_refs st"
    and "steps st' = steps st @ evs" and "set evs \<subseteq> range Lookup"
  shows "only_lookups st r"
proof -
  from assms(1) obtain evs' where "steps (state_of r) = steps st' @ evs'"
    and "set evs' \<subseteq> range Lookup" and "inode_refs (state_of r) = inode_refs st'"
    by (auto simp add: only_lookups_def)
  then have "steps (state_of r) = steps st @ (evs @ evs')" and "set (evs @ evs') \<subseteq> range Lookup"
    and "inode_refs (state_of r) = inode_refs st"
    using assms(2,3,4) by simp_all
  then show ?thesis unfolding only_lookups_def by blast
qed

lemma scan_addrs_lookups: "only_lookups st (scan_addrs img g inode i st)"
proof (induction img g inode i st rule: scan_addrs.induct)
  case (1 img g inode i st)
  define st1 where "st1 = logstep (Lookup i) st"
  define st2 where "st2 = logstep (Lookup NDIRECT) st1"
  have unf: "scan_addrs img g inode i st =
     (if i < NDIRECT then
        (if d_addrs inode i = 0 then Cont st
         else (case bmapval img g (d_addrs inode i) of
                    None \<Rightarrow> Exited st1 1
                  | Some v \<Rightarrow>
                      if v = 0 then Exited (say FreeInBitmap st1) 1
                      else if i = NDIRECT - 1 then
                        (if d_addrs inode NDIRECT = 0 then Cont st1
                         else (case bmapval img g (d_addrs inode NDIRECT) of
                                    None \<Rightarrow> Exited st2 1
                                  | Some w \<Rightarrow>
                                      scan_addrs img g inode (i + 1)
                                        (if w = 0 then say FreeInBitmap st2 else st2)))
                      else scan_addrs img g inode (i + 1) st1))
      else Cont st)"
    apply (subst scan_addrs.simps)
    unfolding st1_def st2_def Let_def
    by simp
  have one: "only_lookups st r" if "only_lookups st1 r" for r
    using that by (rule only_lookups_step) (auto simp add: st1_def)
  have two: "only_lookups st r" if "only_lookups st2' r" and "inode_refs st2' = inode_refs st2"
    and "steps st2' = steps st2" for r st2'
    using that(1) by (rule only_lookups_step) (auto simp add: that st1_def st2_def)
  show ?case
  proof (cases "i < NDIRECT \<and> d_addrs inode i \<noteq> 0")
    case False
    then show ?thesis by (auto simp add: unf only_lookups_refl)
  next
    case True
    show ?thesis
    proof (cases "bmapval img g (d_addrs inode i)")
      case None
      then show ?thesis using True by (simp add: unf one only_lookups_refl)
    next
      case (Some v)
      show ?thesis
      proof (cases "v = 0")
        case True
        then show ?thesis using \<open>i < NDIRECT \<and> d_addrs inode i \<noteq> 0\<close> Some
          by (simp add: unf one only_lookups_refl)
      next
        case nz: False
        define rest where "rest =
            (if d_addrs inode NDIRECT = 0 then Cont st1
             else (case bmapval img g (d_addrs inode NDIRECT) of
                     None \<Rightarrow> Exited st2 1
                   | Some w \<Rightarrow>
                       scan_addrs img g inode (i + 1)
                         (if w = 0 then say FreeInBitmap st2 else st2)))"
        have eq: "scan_addrs img g inode i st =
            (if i = NDIRECT - 1 then rest else scan_addrs img g inode (i + 1) st1)"
          using True Some nz by (simp add: unf rest_def)
        show ?thesis
        proof (cases "i = NDIRECT - 1")
          case False
          from "1.IH"(2) [OF _ _ st1_def Some nz False] True
          have "only_lookups st1 (scan_addrs img g inode (i + 1) st1)" by simp
          then have "only_lookups st (scan_addrs img g inode (i + 1) st1)" by (rule one)
          then show ?thesis unfolding eq using False by simp
        next
          case last: True
          have "only_lookups st rest"
          proof (cases "d_addrs inode NDIRECT = 0")
            case True
            then show ?thesis by (simp add: rest_def one only_lookups_refl)
          next
            case ind: False
            show ?thesis
            proof (cases "bmapval img g (d_addrs inode NDIRECT)")
              case None
              have "only_lookups st2 (Exited st2 1)"
                by (simp add: only_lookups_refl)
              then have "only_lookups st (Exited st2 1)"
                by (rule two) simp_all
              then show ?thesis using ind None by (simp add: rest_def)
            next
              case w: (Some w)
              from "1.IH"(1) [OF _ _ st1_def Some nz last ind st2_def w] True
              have "only_lookups (if w = 0 then say FreeInBitmap st2 else st2)
                  (scan_addrs img g inode (i + 1) (if w = 0 then say FreeInBitmap st2 else st2))"
                by simp
              then have "only_lookups st
                  (scan_addrs img g inode (i + 1) (if w = 0 then say FreeInBitmap st2 else st2))"
                by (rule two) simp_all
              then show ?thesis using ind w by (simp add: rest_def)
            qed
          qed
          then show ?thesis unfolding eq using last by simp
        qed
      qed
    qed
  qed
qed

lemma inode_scan_lookups: "only_lookups st (inode_scan img g i st)"
proof (induction img g i st rule: inode_scan.induct)
  case (1 img g i st)
  define body where "body = (\<lambda>inode.
      if sint (d_type inode) = 0 then
         (if \<not> i < inode_cap st then Faulted st
          else if inode_refs st i \<noteq> 0 then Exited (say FreeButReferred st) 1
          else Cont st)
      else if sint (d_type inode) < T_DIR \<or> sint (d_type inode) > T_DEV
      then Exited (say BadInode st) 1
      else if \<not> i < inode_cap st then Faulted st
      else if inode_refs st i = 0
      then Exited (say (InodeNumber i) (say NotInDirectory st)) 1
      else if sint (d_type inode) = T_DIR \<and> inode_refs st i > 1
      then Exited (say DirTwice st) 1
      else if scast (d_nlink inode) \<noteq> inode_refs st i
      then Exited (say BadRefCount st) 1
      else scan_addrs img g inode 0 st)"
  have unf: "inode_scan img g i st =
     (if i < unat (ninodes g) then
        (case rinode img g (word_of_nat i) of
           None \<Rightarrow> Exited st 1
         | Some inode \<Rightarrow>
             (case body inode of
                Cont st' \<Rightarrow>
                  if i = 2 ^ 31 - 1 then Faulted st'
                  else inode_scan img g (i + 1) st'
              | r \<Rightarrow> r))
      else Cont st)"
    apply (subst inode_scan.simps)
    unfolding body_def
    by simp
  have b: "only_lookups st (body inode)" for inode
    unfolding body_def using scan_addrs_lookups [of st img g inode 0]
    by (simp add: only_lookups_refl)
  show ?case
  proof (cases "i < unat (ninodes g)")
    case False
    then show ?thesis by (simp add: unf only_lookups_refl)
  next
    case True
    show ?thesis
    proof (cases "rinode img g (word_of_nat i)")
      case None
      then show ?thesis using True by (simp add: unf only_lookups_refl)
    next
      case (Some inode)
      show ?thesis
      proof (cases "body inode")
        case (Cont st')
        have l: "only_lookups st (Cont st')" using b [of inode] Cont by simp
        then obtain evs where e: "inode_refs st' = inode_refs st" "steps st' = steps st @ evs"
          "set evs \<subseteq> range Lookup"
          by (auto simp add: only_lookups_def)
        have eq: "inode_scan img g i st =
            (if i = 2 ^ 31 - 1 then Faulted st' else inode_scan img g (i + 1) st')"
          using True Some Cont by (simp add: unf)
        show ?thesis
        proof (cases "i = 2 ^ 31 - 1")
          case last: True
          have "only_lookups st (Faulted st')"
            using l by (simp add: only_lookups_def)
          then show ?thesis unfolding eq using last by simp
        next
          case False
          from "1.IH" [OF True Some Cont [unfolded body_def] False]
          have "only_lookups st' (inode_scan img g (i + 1) st')" .
          then have "only_lookups st (inode_scan img g (i + 1) st')"
            using e by (rule only_lookups_step)
          then show ?thesis using False by (simp add: eq)
        qed
      next
        case (Exited a c)
        then show ?thesis using True Some b [of inode] by (simp add: unf)
      next
        case (Faulted a)
        then show ?thesis using True Some b [of inode] by (simp add: unf)
      qed
    qed
  qed
qed

lemma bitmap_scan_lookups: "only_lookups st (bitmap_scan img g i st)"
proof (induction img g i st rule: bitmap_scan.induct)
  case (1 img g i st)
  show ?case
    using "1.IH"
    by (subst bitmap_scan.simps) (auto simp add: Let_def only_lookups_refl split: option.splits)
qed

lemma after_walk_lookups: "only_lookups st2 (after_walk img g st2)"
proof (cases "inode_scan img g 2 st2")
  case (Cont st3)
  have a: "only_lookups st2 (Cont st3)"
    using inode_scan_lookups [of st2 img g 2] Cont by simp
  then obtain evs where e: "inode_refs st3 = inode_refs st2" "steps st3 = steps st2 @ evs"
    "set evs \<subseteq> range Lookup"
    by (auto simp add: only_lookups_def)
  have b: "only_lookups st3 (bitmap_scan img g (unat (nmeta g)) st3)"
    by (rule bitmap_scan_lookups)
  have "only_lookups st3 (after_walk img g st2)"
    using b Cont by (cases "bitmap_scan img g (unat (nmeta g)) st3")
      (simp_all add: after_walk_def only_lookups_def)
  then show ?thesis using e by (rule only_lookups_step)
next
  case (Exited a c)
  then show ?thesis using inode_scan_lookups [of st2 img g 2] by (simp add: after_walk_def)
next
  case (Faulted a)
  then show ?thesis using inode_scan_lookups [of st2 img g 2] by (simp add: after_walk_def)
qed

text \<open>What \<open>main\<close> does with an opened image, in terms of the traversal.\<close>
lemma main_cases:
  fixes img :: image
  defines "g \<equiv> layout (read_sb img)"
  shows "\<exists>st1. inode_refs st1 = (\<lambda>_. 0) \<and> steps st1 = [] \<and>
     ((\<exists>r. main 2 (Some img) = Some r \<and> inode_refs (state_of r) = (\<lambda>_. 0) \<and> steps (state_of r) = [])
      \<or> (\<exists>root. main 2 (Some img) =
            (case recurse_dir max_depth img g root 1 st1 of
               Some (Cont st2) \<Rightarrow> Some (after_walk img g st2)
             | r \<Rightarrow> r)))"
proof -
  define st0 where "st0 = (if BSIZE + sizeof_superblock \<le> img_size img then start
                     else say NoSuperblock start)"
  define st1 where "st1 = st0\<lparr> inode_cap := unat (sb_ninodes (sb g) * word_of_nat BSIZE) div sizeof_uint,
                         block_cap := unat (nblocks g * word_of_nat BSIZE) div sizeof_uint \<rparr>"
  have f: "inode_refs st1 = (\<lambda>_. 0)" "steps st1 = []"
    by (simp_all add: st1_def st0_def start_def)
  have m: "main 2 (Some img) =
     (case rinode img g 1 of
               None \<Rightarrow> Some (Exited st1 1)
             | Some root_inode \<Rightarrow>
                 if sint (d_type root_inode) \<noteq> T_DIR
                 then Some (Exited (say RootMissing st1) 1)
                 else (case rblock img (d_addrs root_inode 0) of
                         None \<Rightarrow> Some (Exited st1 1)
                       | Some buf \<Rightarrow>
                           if de_inum (rdirent 1 buf) \<noteq> 1
                           then Some (Exited (say RootMissing st1) 1)
                           else (case recurse_dir max_depth img g root_inode 1 st1 of
                                   Some (Cont st2) \<Rightarrow> Some (after_walk img g st2)
                                 | r \<Rightarrow> r)))"
    unfolding main_def g_def st1_def st0_def Let_def after_walk_def
    by (simp split: option.split run.split)
  show ?thesis
  proof (cases "rinode img g 1")
    case None
    then show ?thesis using f m by force
  next
    case (Some root)
    show ?thesis
    proof (cases "sint (d_type root) \<noteq> T_DIR")
      case True
      then show ?thesis using f m Some by force
    next
      case isdir: False
      show ?thesis
      proof (cases "rblock img (d_addrs root 0)")
        case None
        then show ?thesis using f m Some isdir by force
      next
        case buf: (Some buf)
        show ?thesis
        proof (cases "de_inum (rdirent 1 buf) \<noteq> 1")
          case True
          then show ?thesis using f m Some isdir buf by force
        next
          case False
          then have "main 2 (Some img) =
            (case recurse_dir max_depth img g root 1 st1 of
               Some (Cont st2) \<Rightarrow> Some (after_walk img g st2)
             | r \<Rightarrow> r)"
            using m Some isdir buf by simp
          then show ?thesis using f by blast
        qed
      qed
    qed
  qed
qed

subsection \<open>The invariant of the traversal\<close>

lemma word_le_1_cases: "(x::uint) \<le> 1 \<Longrightarrow> x = 0 \<or> x = 1"
  by (metis word_less_1 order_le_less)

lemma bump_once: "(x::uint) \<le> 1 \<Longrightarrow> \<not> 1 < x + 1 \<Longrightarrow> x = 0"
  by (auto dest: word_le_1_cases)

lemma unat_ucast16 [simp]: "unat (ucast (v :: ushort) :: uint) = unat v"
proof -
  have "unat v < 2 ^ 16"
    using unsigned_less [of v, where 'a = nat] by simp
  then have "unat v < 2 ^ 32" by simp
  then show ?thesis
    by (simp add: unsigned_ucast_eq take_bit_nat_eq_self)
qed

lemma unat_inj32: "unat (a::uint) = unat b \<longleftrightarrow> a = b"
  by (simp add: word_unat_eq_iff)

lemma entered_append [simp]: "entered (xs @ ys) n = entered xs n + entered ys n"
  by (simp add: entered_def)

lemma entered_single [simp]:
  "entered [Enter m] n = (if n = m then 1 else 0)"
  "entered [Count d i s t] n = 0"
  "entered [Lookup k] n = 0"
  by (auto simp add: entered_def)

lemma good_cong:
  "inode_refs a = inode_refs b \<Longrightarrow> steps a = steps b \<Longrightarrow> good img g a = good img g b"
  by (simp add: good_def dirs_once_def allowance_def)

lemma zero_dirs_cong:
  "inode_refs a = inode_refs b \<Longrightarrow> zero_dirs img g a = zero_dirs img g b"
  by (simp add: zero_dirs_def)

lemma dirs_once_cong:
  "inode_refs a = inode_refs b \<Longrightarrow> dirs_once img g a = dirs_once img g b"
  by (simp add: dirs_once_def)

lemma enter_bound_cong:
  "steps a = steps b \<Longrightarrow> enter_bound a = enter_bound b"
  by (simp add: enter_bound_def)

lemma good_enter_bound: "good img g st \<Longrightarrow> enter_bound st"
  unfolding enter_bound_def
proof (intro allI)
  fix n
  assume a: "good img g st"
  then have b: "entered (steps st) n \<le> allowance img g st n"
    by (simp add: good_def)
  have "is_dir img g n \<Longrightarrow> unat (inode_refs st (unat n)) \<le> 1"
    using a by (auto simp add: good_def dirs_once_def word_le_nat_alt)
  then have "allowance img g st n \<le> (if n = 1 then 2 else 1)"
    by (auto simp add: allowance_def)
  with b show "entered (steps st) n \<le> (if n = 1 then 2 else 1)"
    by (rule order_trans)
qed

lemma good_dirs_once: "good img g st \<Longrightarrow> dirs_once img g st"
  by (simp add: good_def)

lemma same_walk_ok:
  assumes "same_walk st r" and "good img g st"
  shows "run_ok img g st r"
proof -
  have r: "inode_refs (state_of r) = inode_refs st" and s: "steps (state_of r) = steps st"
    using assms(1) by (simp_all add: same_walk_def)
  have g: "good img g (state_of r)"
    using assms(2) good_cong [OF r s] by simp
  have z: "zero_dirs img g (state_of r) = zero_dirs img g st"
    using r by (rule zero_dirs_cong)
  show ?thesis
    using good_enter_bound [OF g] good_dirs_once [OF g] g z
    by (cases r) (simp_all add: run_ok_def)
qed

lemma run_ok_from:
  "run_ok img g st' r \<Longrightarrow> zero_dirs img g st' \<subseteq> zero_dirs img g st \<Longrightarrow> run_ok img g st r"
  by (cases r) (auto simp add: run_ok_def)

lemma allowance_cong:
  "inode_refs a = inode_refs b \<Longrightarrow> allowance img g a n = allowance img g b n"
  by (simp add: allowance_def)

lemma allowance_same:
  "(is_dir img g n \<Longrightarrow> inode_refs a (unat n) = inode_refs b (unat n))
    \<Longrightarrow> allowance img g a n = allowance img g b n"
  by (simp add: allowance_def)

lemma enter_step:
  assumes "may_enter img g st inum"
  shows "good img g (logstep (Enter inum) st)"
    and "zero_dirs img g (logstep (Enter inum) st) = zero_dirs img g st"
proof -
  define st' where "st' = logstep (Enter inum) st"
  have r: "inode_refs st' = inode_refs st"
    and s: "steps st' = steps st @ [Enter inum]"
    by (simp_all add: st'_def)
  have d: "dirs_once img g st'"
    using assms dirs_once_cong [OF r] by (simp add: may_enter_def)
  have "entered (steps st') n \<le> allowance img g st' n" for n
  proof -
    have "entered (steps st) n + (if n = inum then 1 else 0) \<le> allowance img g st n"
      using assms by (simp add: may_enter_def)
    then show ?thesis
      by (simp add: s allowance_cong [OF r])
  qed
  with d show "good img g (logstep (Enter inum) st)"
    by (simp add: good_def st'_def)
  show "zero_dirs img g (logstep (Enter inum) st) = zero_dirs img g st"
    using zero_dirs_cong [OF r] by (simp add: st'_def)
qed

lemma count_file_step:
  assumes "good img g st" and "\<not> is_dir img g t"
  shows "good img g (logstep (Count d i s t) (bump_inode (unat t) st))"
    and "zero_dirs img g (logstep (Count d i s t) (bump_inode (unat t) st)) = zero_dirs img g st"
proof -
  define st' where "st' = logstep (Count d i s t) (bump_inode (unat t) st)"
  have s: "steps st' = steps st @ [Count d i s t]"
    by (simp add: st'_def)
  have other: "inode_refs st' (unat n) = inode_refs st (unat n)" if "is_dir img g n" for n
  proof -
    have "n \<noteq> t" using that assms(2) by auto
    then show ?thesis by (simp add: st'_def unat_inj32)
  qed
  have a: "allowance img g st' n = allowance img g st n" for n
    by (rule allowance_same) (rule other)
  have "dirs_once img g st'"
    unfolding dirs_once_def
  proof (intro allI impI)
    fix n assume n: "is_dir img g n"
    then have "inode_refs st (unat n) \<le> 1"
      using assms(1) by (simp add: good_def dirs_once_def)
    then show "inode_refs st' (unat n) \<le> 1"
      by (simp only: other [OF n])
  qed
  moreover have "entered (steps st') n \<le> allowance img g st' n" for n
    using assms(1) by (simp add: a s good_def)
  ultimately show "good img g (logstep (Count d i s t) (bump_inode (unat t) st))"
    by (simp add: good_def st'_def)
  have "zero_dirs img g st' = zero_dirs img g st"
  proof (rule set_eqI)
    fix n
    show "n \<in> zero_dirs img g st' \<longleftrightarrow> n \<in> zero_dirs img g st"
    proof (cases "is_dir img g n")
      case True
      then show ?thesis by (simp add: zero_dirs_def other [OF True])
    next
      case False
      then show ?thesis by (simp add: zero_dirs_def)
    qed
  qed
  then show "zero_dirs img g (logstep (Count d i s t) (bump_inode (unat t) st)) = zero_dirs img g st"
    by (simp add: st'_def)
qed

lemma count_dir_twice:
  assumes "good img g st" and "is_dir img g t"
    and "st' = logstep (Count d i s t) (bump_inode (unat t) st)"
    and "1 < inode_refs st' (unat t)"
  shows "run_ok img g st (Exited (say DirTwice st') 1)"
proof -
  have "enter_bound st" using assms(1) by (rule good_enter_bound)
  then have "enter_bound (say DirTwice st')"
    using assms(3) by (simp add: enter_bound_def)
  moreover have "halted_dup img g (Exited (say DirTwice st') 1)"
    using assms(2,3,4) by (auto simp add: halted_dup_def)
  ultimately show ?thesis by (simp add: run_ok_def)
qed

lemma count_dir_once:
  assumes "good img g st" and "is_dir img g t"
    and "st' = logstep (Count d i s t) (bump_inode (unat t) st)"
    and "\<not> 1 < inode_refs st' (unat t)"
  shows "may_enter img g st' t" and "zero_dirs img g st' \<subseteq> zero_dirs img g st"
    and "t \<in> zero_dirs img g st" and "t \<notin> zero_dirs img g st'"
proof -
  have le: "inode_refs st (unat t) \<le> 1"
    using assms(1,2) by (simp add: good_def dirs_once_def)
  have z: "inode_refs st (unat t) = 0"
    using assms(3,4) le by (auto intro: bump_once)
  have here: "inode_refs st' (unat t) = 1"
    using z assms(3) by simp
  have other: "inode_refs st' (unat n) = inode_refs st (unat n)" if "n \<noteq> t" for n
    using that assms(3) by (simp add: unat_inj32)
  show "t \<in> zero_dirs img g st" using z assms(2) by (simp add: zero_dirs_def)
  show "t \<notin> zero_dirs img g st'" using here by (simp add: zero_dirs_def)
  show "zero_dirs img g st' \<subseteq> zero_dirs img g st"
  proof
    fix n assume n: "n \<in> zero_dirs img g st'"
    then have "n \<noteq> t" using here by (auto simp add: zero_dirs_def)
    then show "n \<in> zero_dirs img g st" using n other [of n] by (simp add: zero_dirs_def)
  qed
  have d: "dirs_once img g st'"
    unfolding dirs_once_def
  proof (intro allI impI)
    fix n assume "is_dir img g n"
    then have "inode_refs st (unat n) \<le> 1"
      using assms(1) by (simp add: good_def dirs_once_def)
    then show "inode_refs st' (unat n) \<le> 1"
      using here other [of n] by (cases "n = t") simp_all
  qed
  have e: "entered (steps st') n = entered (steps st) n" for n
    using assms(3) by simp
  have "entered (steps st') n + (if n = t then 1 else 0) \<le> allowance img g st' n" for n
  proof (cases "n = t")
    case True
    have "entered (steps st) t \<le> allowance img g st t"
      using assms(1) by (simp add: good_def)
    moreover have "allowance img g st t + 1 = allowance img g st' t"
      using assms(2) z here by (simp add: allowance_def)
    ultimately show ?thesis
      using True by (simp add: e)
  next
    case False
    have "entered (steps st) n \<le> allowance img g st n"
      using assms(1) by (simp add: good_def)
    moreover have "allowance img g st' n = allowance img g st n"
      by (rule allowance_same) (rule other [OF False])
    ultimately show ?thesis
      using False by (simp add: e)
  qed
  with d show "may_enter img g st' t" by (simp add: may_enter_def)
qed

subsection \<open>The traversal returns\<close>

text \<open>
  Every call of \<open>recurse_dir\<close> from an entry takes a directory out of
  \<open>zero_dirs\<close>, so a depth above the size of that set is never used up.
\<close>
lemma returns_ok_same:
  "same_walk st r \<Longrightarrow> good img g st \<Longrightarrow> returns_ok img g st (Some r)"
  by (simp add: returns_ok_def same_walk_ok)

lemma returns_ok_from:
  "returns_ok img g st' res \<Longrightarrow> zero_dirs img g st' \<subseteq> zero_dirs img g st
     \<Longrightarrow> returns_ok img g st res"
  by (auto simp add: returns_ok_def intro: run_ok_from)

lemma zero_dirs_card_mono:
  "zero_dirs img g a \<subseteq> zero_dirs img g b \<Longrightarrow> card (zero_dirs img g a) \<le> card (zero_dirs img g b)"
  by (simp add: card_mono)

lemma recurse_dir_total:
  assumes blocks: "\<And>i st. good img g st \<Longrightarrow> card (zero_dirs img g st) \<le> fuel - 1 \<Longrightarrow>
      returns_ok img g st (dir_blocks (fuel - 1) img g dir inum i st)"
    and pre: "may_enter img g st inum"
    and c: "card (zero_dirs img g st) < fuel"
  shows "returns_ok img g st (recurse_dir fuel img g dir inum st)"
proof -
  define st0 where "st0 = logstep (Enter inum) st"
  have g0: "good img g st0" and z0: "zero_dirs img g st0 = zero_dirs img g st"
    using enter_step [OF pre] by (simp_all add: st0_def)
  have "returns_ok img g st0 (recurse_dir fuel img g dir inum st)"
  proof (cases "sint (d_type dir) = T_DIR")
    case True
    then have "recurse_dir fuel img g dir inum st = dir_blocks (fuel - 1) img g dir inum 0 st0"
      using c by (simp add: recurse_dir.simps st0_def)
    moreover have "card (zero_dirs img g st0) \<le> fuel - 1"
      using c z0 by simp
    ultimately show ?thesis using blocks [OF g0] by simp
  next
    case False
    then have "recurse_dir fuel img g dir inum st = Some (Exited (say AppErrorDir st0) 1)"
      using c by (simp add: recurse_dir.simps st0_def)
    then show ?thesis using g0 by (simp add: returns_ok_same)
  qed
  then show ?thesis using z0 by (simp add: returns_ok_from)
qed

lemma dir_entries_total:
  assumes rec: "\<And>dir inum st. may_enter img g st inum \<Longrightarrow> card (zero_dirs img g st) < fuel \<Longrightarrow>
      returns_ok img g st (recurse_dir fuel img g dir inum st)"
  shows "good img g st \<Longrightarrow> card (zero_dirs img g st) \<le> fuel
      \<Longrightarrow> returns_ok img g st (dir_entries fuel img g inum i buf bdeidx st)"
proof (induction n \<equiv> "BSIZE div sizeof_dirent - bdeidx" arbitrary: bdeidx st)
  case 0
  then have "dir_entries fuel img g inum i buf bdeidx st = Some (Cont st)"
    by (simp add: dir_entries.simps)
  then show ?case using "0.prems"(1) by (simp add: returns_ok_same)
next
  case (Suc n)
  note gd = Suc.prems(1) and c = Suc.prems(2)
  have lt: "bdeidx < BSIZE div sizeof_dirent" and n: "n = BSIZE div sizeof_dirent - (bdeidx + 1)"
    using Suc.hyps(2) by simp_all
  define de where "de = rdirent bdeidx buf"
  define t :: uint where "t = ucast (de_inum de)"
  define st' where "st' = logstep (Count inum i bdeidx t) (bump_inode (unat t) st)"
  have unf: "dir_entries fuel img g inum i buf bdeidx st =
    (if de_inum de = 0 then Some (Cont st)
     else (case rinode img g t of
             None \<Rightarrow> Some (Exited st 1)
           | Some cur \<Rightarrow>
               if sint (d_type cur) < T_DIR \<or> T_DEV < sint (d_type cur)
               then Some (Exited (say InvalidType st) 1)
               else if \<not> unat t < inode_cap st then Some (Faulted st)
               else if sint (d_type cur) = T_DIR then
                 (if 1 < inode_refs st' (unat t) then Some (Exited (say DirTwice st') 1)
                  else (case recurse_dir fuel img g cur t st' of
                          Some (Cont st'') \<Rightarrow>
                            dir_entries fuel img g inum i buf (bdeidx + 1) st''
                        | r \<Rightarrow> r))
               else (case process_file img g cur st' of
                       Cont st'' \<Rightarrow> dir_entries fuel img g inum i buf (bdeidx + 1) st''
                     | r \<Rightarrow> Some r)))"
    apply (subst dir_entries.simps)
    unfolding de_def t_def st'_def Let_def unat_ucast16
    using lt by simp
  show ?case
  proof (cases "de_inum de = 0")
    case True
    then show ?thesis using gd by (simp add: unf returns_ok_same)
  next
    case live: False
    show ?thesis
    proof (cases "rinode img g t")
      case None
      then show ?thesis using live gd by (simp add: unf returns_ok_same)
    next
      case (Some cur)
      show ?thesis
      proof (cases "sint (d_type cur) < T_DIR \<or> T_DEV < sint (d_type cur)")
        case True
        then show ?thesis using live Some gd by (simp add: unf returns_ok_same)
      next
        case typed: False
        show ?thesis
        proof (cases "unat t < inode_cap st")
          case False
          then show ?thesis using live Some typed gd by (simp add: unf returns_ok_same)
        next
          case cap: True
          show ?thesis
          proof (cases "sint (d_type cur) = T_DIR")
            case True
            then have isd: "is_dir img g t"
              using Some unsigned_less [of "de_inum de", where 'a = nat]
              by (simp add: is_dir_def t_def)
            show ?thesis
            proof (cases "1 < inode_refs st' (unat t)")
              case twice: True
              then show ?thesis
                using live Some typed cap True count_dir_twice [OF gd isd st'_def twice]
                by (simp add: unf returns_ok_def)
            next
              case once: False
              note step = count_dir_once [OF gd isd st'_def once]
              have "zero_dirs img g st' \<subset> zero_dirs img g st"
                using step(2,3,4) by blast
              then have c': "card (zero_dirs img g st') < fuel"
                using c psubset_card_mono [of "zero_dirs img g st" "zero_dirs img g st'"]
                by simp
              from rec [OF step(1) c', of cur]
              obtain x where x: "recurse_dir fuel img g cur t st' = Some x"
                and okx: "run_ok img g st' x"
                by (auto simp add: returns_ok_def)
              have eq: "dir_entries fuel img g inum i buf bdeidx st =
                  (case x of Cont st'' \<Rightarrow> dir_entries fuel img g inum i buf (bdeidx + 1) st''
                   | r \<Rightarrow> Some r)"
                using live Some typed cap True once x
                by (simp add: unf split: run.splits)
              show ?thesis
              proof (cases x)
                case (Cont st'')
                have g'': "good img g st''" and z: "zero_dirs img g st'' \<subseteq> zero_dirs img g st'"
                  using okx Cont by (simp_all add: run_ok_def)
                have "card (zero_dirs img g st'') \<le> fuel"
                  using zero_dirs_card_mono [OF z] c' by simp
                from Suc.hyps(1) [OF n g'' this]
                have "returns_ok img g st'' (dir_entries fuel img g inum i buf bdeidx st)"
                  using eq Cont by simp
                then show ?thesis
                  using z step(2) by (meson returns_ok_from subset_trans)
              next
                case (Exited a b)
                then have "returns_ok img g st' (dir_entries fuel img g inum i buf bdeidx st)"
                  using eq okx by (simp add: returns_ok_def)
                then show ?thesis using step(2) by (rule returns_ok_from)
              next
                case (Faulted a)
                then have "returns_ok img g st' (dir_entries fuel img g inum i buf bdeidx st)"
                  using eq okx by (simp add: returns_ok_def)
                then show ?thesis using step(2) by (rule returns_ok_from)
              qed
            qed
          next
            case nodir: False
            then have nd: "\<not> is_dir img g t"
              using Some by (simp add: is_dir_def)
            have g': "good img g st'" and z': "zero_dirs img g st' = zero_dirs img g st"
              using count_file_step [OF gd nd] by (simp_all add: st'_def)
            have eq: "dir_entries fuel img g inum i buf bdeidx st =
                (case process_file img g cur st' of
                    Cont st'' \<Rightarrow> dir_entries fuel img g inum i buf (bdeidx + 1) st''
                  | r \<Rightarrow> Some r)"
              using live Some typed cap nodir by (simp add: unf)
            have sw: "same_walk st' (process_file img g cur st')"
              by (rule process_file_same)
            have "returns_ok img g st' (dir_entries fuel img g inum i buf bdeidx st)"
            proof (cases "process_file img g cur st'")
              case (Cont st'')
              have g'': "good img g st''" and z: "zero_dirs img g st'' = zero_dirs img g st'"
                using sw Cont g' good_cong [of st'' st'] zero_dirs_cong [of st'' st']
                by simp_all
              have "card (zero_dirs img g st'') \<le> fuel"
                using z z' c by simp
              from Suc.hyps(1) [OF n g'' this]
              show ?thesis using eq Cont z by (simp add: returns_ok_from)
            next
              case (Exited a b)
              then show ?thesis using eq sw g' by (simp add: returns_ok_same)
            next
              case (Faulted a)
              then show ?thesis using eq sw g' by (simp add: returns_ok_same)
            qed
            then show ?thesis using z' by (simp add: returns_ok_from)
          qed
        qed
      qed
    qed
  qed
qed

lemma dir_blocks_total:
  assumes ent: "\<And>i buf bdeidx st. good img g st \<Longrightarrow> card (zero_dirs img g st) \<le> fuel \<Longrightarrow>
      returns_ok img g st (dir_entries fuel img g inum i buf bdeidx st)"
  shows "good img g st \<Longrightarrow> card (zero_dirs img g st) \<le> fuel
      \<Longrightarrow> returns_ok img g st (dir_blocks fuel img g dir inum i st)"
proof (induction n \<equiv> "NDIRECT - i" arbitrary: i st)
  case 0
  then have "dir_blocks fuel img g dir inum i st = Some (Cont st)"
    by (simp add: dir_blocks.simps)
  then show ?case using "0.prems"(1) by (simp add: returns_ok_same)
next
  case (Suc n)
  note gd = Suc.prems(1) and c = Suc.prems(2)
  have lt: "i < NDIRECT" and n: "n = NDIRECT - (i + 1)"
    using Suc.hyps(2) by simp_all
  define bp where "bp = d_addrs dir i"
  define st' where "st' = bump_block (unat (bp - nmeta g)) st"
  have r': "inode_refs st' = inode_refs st" and s': "steps st' = steps st"
    by (simp_all add: st'_def)
  have g': "good img g st'" using gd good_cong [OF r' s'] by simp
  have z': "zero_dirs img g st' = zero_dirs img g st" using r' by (rule zero_dirs_cong)
  have unf: "dir_blocks fuel img g dir inum i st =
    (if bp = 0 then Some (Cont st)
     else if \<not> check_bp g bp then Some (Exited (say BadDirect st) 1)
     else if \<not> unat (bp - nmeta g) < block_cap st then Some (Faulted st)
     else (case rblock img bp of
             None \<Rightarrow> Some (Exited st' 1)
           | Some buf \<Rightarrow>
               if i = 0 \<and> (strcmp_ne (de_name (rdirent 0 buf)) dot
                              \<or> ucast (de_inum (rdirent 0 buf)) \<noteq> inum)
               then Some (Exited (say BadFormat st') 1)
               else if i = 0 \<and> strcmp_ne (de_name (rdirent 1 buf)) dotdot
               then Some (Exited (say BadFormat st') 1)
               else (case dir_entries fuel img g inum i buf (if i = 0 then 2 else 0) st' of
                       Some (Cont st'') \<Rightarrow> dir_blocks fuel img g dir inum (i + 1) st''
                     | r \<Rightarrow> r)))"
    apply (subst dir_blocks.simps)
    unfolding bp_def st'_def Let_def
    using lt by simp
  show ?case
  proof (cases "bp = 0 \<or> \<not> check_bp g bp \<or> \<not> unat (bp - nmeta g) < block_cap st")
    case True
    then show ?thesis using gd by (auto simp add: unf returns_ok_same)
  next
    case ok: False
    have "returns_ok img g st' (dir_blocks fuel img g dir inum i st)"
    proof (cases "rblock img bp")
      case None
      then show ?thesis using ok g' by (simp add: unf returns_ok_same)
    next
      case (Some buf)
      show ?thesis
      proof (cases "(i = 0 \<and> (strcmp_ne (de_name (rdirent 0 buf)) dot
                              \<or> ucast (de_inum (rdirent 0 buf)) \<noteq> inum))
                   \<or> (i = 0 \<and> strcmp_ne (de_name (rdirent 1 buf)) dotdot)")
        case True
        then show ?thesis using ok Some g' by (auto simp add: unf returns_ok_same)
      next
        case fmt: False
        have c': "card (zero_dirs img g st') \<le> fuel" using c z' by simp
        from ent [OF g' c', of i buf "if i = 0 then 2 else 0"]
        obtain x where x: "dir_entries fuel img g inum i buf (if i = 0 then 2 else 0) st' = Some x"
          and okx: "run_ok img g st' x"
          by (auto simp add: returns_ok_def)
        have eq: "dir_blocks fuel img g dir inum i st =
            (case x of Cont st'' \<Rightarrow> dir_blocks fuel img g dir inum (i + 1) st''
             | r \<Rightarrow> Some r)"
          using ok Some fmt x by (auto simp add: unf split: run.splits)
        show ?thesis
        proof (cases x)
          case (Cont st'')
          have g'': "good img g st''" and z: "zero_dirs img g st'' \<subseteq> zero_dirs img g st'"
            using okx Cont by (simp_all add: run_ok_def)
          have "card (zero_dirs img g st'') \<le> fuel"
            using zero_dirs_card_mono [OF z] c' by simp
          from Suc.hyps(1) [OF n g'' this]
          show ?thesis using eq Cont z by (simp add: returns_ok_from)
        next
          case (Exited a b)
          then show ?thesis using eq okx by (simp add: returns_ok_def)
        next
          case (Faulted a)
          then show ?thesis using eq okx by (simp add: returns_ok_def)
        qed
      qed
    qed
    then show ?thesis using z' by (simp add: returns_ok_from)
  qed
qed

lemma dir_blocks_returns:
  "good img g st \<Longrightarrow> card (zero_dirs img g st) \<le> fuel
     \<Longrightarrow> returns_ok img g st (dir_blocks fuel img g dir inum i st)"
proof (induction fuel arbitrary: dir inum i st)
  case 0
  have rec: "returns_ok img g st (recurse_dir 0 img g dir inum st)"
    if "may_enter img g st inum" and "card (zero_dirs img g st) < 0" for dir inum st
    using that by simp
  show ?case
    by (rule dir_blocks_total [OF dir_entries_total [OF rec] "0.prems"])
next
  case (Suc fuel)
  have rec: "returns_ok img g st (recurse_dir (Suc fuel) img g dir inum st)"
    if "may_enter img g st inum" and "card (zero_dirs img g st) < Suc fuel" for dir inum st
    by (rule recurse_dir_total [OF _ that]) (simp add: Suc.IH)
  show ?case
    by (rule dir_blocks_total [OF dir_entries_total [OF rec] Suc.prems])
qed

lemma recurse_dir_returns:
  assumes "may_enter img g st inum" and "card (zero_dirs img g st) < fuel"
  shows "returns_ok img g st (recurse_dir fuel img g dir inum st)"
  by (rule recurse_dir_total [OF _ assms]) (simp add: dir_blocks_returns)

lemma card_zero_dirs: "card (zero_dirs img g st) < max_depth"
proof -
  have "zero_dirs img g st \<subseteq> word_of_nat ` {..<2 ^ 16}"
  proof
    fix n assume "n \<in> zero_dirs img g st"
    then have "unat n < 2 ^ 16" by (simp add: zero_dirs_def is_dir_def)
    moreover have "n = word_of_nat (unat n)" by simp
    ultimately show "n \<in> word_of_nat ` {..<2 ^ 16}" by blast
  qed
  then have "card (zero_dirs img g st) \<le> card (word_of_nat ` {..<2 ^ 16 :: nat} :: uint set)"
    by (simp add: card_mono)
  also have "\<dots> \<le> card {..<2 ^ 16 :: nat}" by (rule card_image_le) simp
  finally show ?thesis by (simp add: max_depth_def)
qed

lemma may_enter_fresh:
  assumes "inode_refs st = (\<lambda>_. 0)" and "steps st = []"
  shows "may_enter img g st 1"
  using assms by (simp add: may_enter_def dirs_once_def allowance_def entered_def)

lemma fresh_ok:
  assumes "inode_refs (state_of r) = (\<lambda>_. 0)" and "steps (state_of r) = []"
  shows "enter_bound (state_of r)" and "dirs_once img g (state_of r)"
  using assms by (simp_all add: enter_bound_def dirs_once_def entered_def)

lemma only_lookups_entered:
  assumes "only_lookups st r"
  shows "entered (steps (state_of r)) n = entered (steps st) n"
proof -
  from assms obtain evs where e: "steps (state_of r) = steps st @ evs" "set evs \<subseteq> range Lookup"
    by (auto simp add: only_lookups_def)
  have "count_list evs (Enter n) = 0"
    using e(2) by (auto simp add: count_list_0_iff)
  then show ?thesis using e(1) by (simp add: entered_def)
qed

lemma only_lookups_good:
  assumes "only_lookups st r" and "good img g st"
  shows "enter_bound (state_of r)" and "dirs_once img g (state_of r)"
proof -
  have r: "inode_refs (state_of r) = inode_refs st"
    using assms(1) by (simp add: only_lookups_def)
  show "dirs_once img g (state_of r)"
    using assms(2) dirs_once_cong [OF r] by (simp add: good_def)
  have "enter_bound st" using assms(2) by (rule good_enter_bound)
  then show "enter_bound (state_of r)"
    by (simp add: enter_bound_def only_lookups_entered [OF assms(1)])
qed

lemma main_opened:
  fixes img :: image
  defines "g \<equiv> layout (read_sb img)"
  shows "\<exists>r. main 2 (Some img) = Some r \<and> enter_bound (state_of r) \<and>
     (\<not> dirs_once img g (state_of r) \<longrightarrow> halted_dup img g r)"
proof -
  from main_cases [of img] obtain st1 where f: "inode_refs st1 = (\<lambda>_. 0)" "steps st1 = []"
    and c: "(\<exists>r. main 2 (Some img) = Some r \<and> inode_refs (state_of r) = (\<lambda>_. 0)
                \<and> steps (state_of r) = [])
      \<or> (\<exists>root. main 2 (Some img) =
            (case recurse_dir max_depth img g root 1 st1 of
               Some (Cont st2) \<Rightarrow> Some (after_walk img g st2)
             | r \<Rightarrow> r))"
    unfolding g_def by blast
  from c show ?thesis
  proof
    assume "\<exists>r. main 2 (Some img) = Some r \<and> inode_refs (state_of r) = (\<lambda>_. 0)
                \<and> steps (state_of r) = []"
    then obtain r where "main 2 (Some img) = Some r" "inode_refs (state_of r) = (\<lambda>_. 0)"
      "steps (state_of r) = []" by blast
    then show ?thesis using fresh_ok(1) [of r] fresh_ok(2) [of r img g] by blast
  next
    assume "\<exists>root. main 2 (Some img) =
            (case recurse_dir max_depth img g root 1 st1 of
               Some (Cont st2) \<Rightarrow> Some (after_walk img g st2)
             | r \<Rightarrow> r)"
    then obtain root where m: "main 2 (Some img) =
            (case recurse_dir max_depth img g root 1 st1 of
               Some (Cont st2) \<Rightarrow> Some (after_walk img g st2)
             | r \<Rightarrow> r)" by blast
    from recurse_dir_returns [OF may_enter_fresh [OF f] card_zero_dirs, of img g root]
    obtain x where x: "recurse_dir max_depth img g root 1 st1 = Some x"
      and ok: "run_ok img g st1 x"
      by (auto simp add: returns_ok_def)
    show ?thesis
    proof (cases x)
      case (Cont st2)
      then have "good img g st2" using ok by (simp add: run_ok_def)
      from only_lookups_good(1) [OF after_walk_lookups this]
        only_lookups_good(2) [OF after_walk_lookups this]
      show ?thesis using m x Cont by simp
    next
      case (Exited a b)
      then show ?thesis using m x ok by (simp add: run_ok_def)
    next
      case (Faulted a)
      then show ?thesis using m x ok by (simp add: run_ok_def)
    qed
  qed
qed

lemma main_returns: "\<exists>r. main argc opened = Some r \<and> enter_bound (state_of r) \<and>
     (\<forall>img. opened = Some img \<longrightarrow> \<not> dirs_once img (layout (read_sb img)) (state_of r) \<longrightarrow>
        halted_dup img (layout (read_sb img)) r)"
proof (cases "argc = 2")
  case False
  then have "main argc opened = Some (Exited (say Usage start) 1)" by (simp add: main_def)
  then show ?thesis
    by (auto simp add: enter_bound_def entered_def dirs_once_def start_def)
next
  case True
  show ?thesis
  proof (cases opened)
    case None
    then have "main argc opened = Some (Faulted (say InvalidImage start))"
      using True by (simp add: main_def)
    then show ?thesis using None
      by (auto simp add: enter_bound_def entered_def start_def)
  next
    case (Some img)
    then show ?thesis using True main_opened [of img] by auto
  qed
qed

lemma root_loop_run:
  "\<exists>st. main 2 (Some img_root_loop) = Some (Exited st 1) \<and>
     steps st = [Enter 1, Count 1 0 2 1, Enter 1, Count 1 0 2 1] \<and>
     inode_refs st 1 = 2 \<and> out st = [DirTwice]"
  by (simp add: run_defs header_consts img_root_loop_def upt_DIRSIZ)

text \<open>
  C7, as the claim states it: the traversal never enters the same directory
  inode twice.  In \<open>img_root_loop\<close> the root holds an entry that names the
  root.  \<open>main\<close> enters inode 1 with a count of 0, the entry raises the count
  to 1, which does not exceed 1, and \<open>recurse_dir\<close> is called for inode 1 a
  second time; only the same entry, met again, raises the count to 2 and ends
  the run.
\<close>
theorem root_entered_twice:
  "run_steps (main 2 (Some img_root_loop)) = [Enter 1, Count 1 0 2 1, Enter 1, Count 1 0 2 1] \<and>
   entered (run_steps (main 2 (Some img_root_loop))) 1 = 2"
proof -
  from root_loop_run obtain st where "main 2 (Some img_root_loop) = Some (Exited st 1)"
    and "steps st = [Enter 1, Count 1 0 2 1, Enter 1, Count 1 0 2 1]" by blast
  then show ?thesis by (simp add: entered_def)
qed

text \<open>
  C7, amended: a directory whose count exceeds 1 is reported as a duplicate
  directory link and the run ends with status 1 before any call of
  \<open>recurse_dir\<close> for it (\<open>halted_dup\<close>); so the traversal enters no inode
  twice through directory entries: an inode other than the root is entered
  at most once, and the root, which \<open>main\<close> enters itself without counting,
  at most twice.  The run ends on every image, by \<open>exit\<close>, by the return of
  \<open>main\<close> or by an access outside a table: \<open>main\<close> never uses up the depth
  it gives the traversal.
\<close>
theorem traversal_returns_and_enters_once:
  "\<exists>r. main argc opened = Some r \<and>
     (\<forall>n. entered (steps (state_of r)) n \<le> (if n = 1 then 2 else 1)) \<and>
     (\<forall>img n. opened = Some img \<and> is_dir img (layout (read_sb img)) n \<and>
        1 < inode_refs (state_of r) (unat n) \<longrightarrow> halted_dup img (layout (read_sb img)) r)"
proof -
  from main_returns [of argc opened] obtain r where r: "main argc opened = Some r"
    "enter_bound (state_of r)"
    "\<forall>img. opened = Some img \<longrightarrow> \<not> dirs_once img (layout (read_sb img)) (state_of r) \<longrightarrow>
        halted_dup img (layout (read_sb img)) r"
    by blast
  have "\<forall>n. entered (steps (state_of r)) n \<le> (if n = 1 then 2 else 1)"
    using r(2) by (simp add: enter_bound_def)
  moreover have "\<forall>img n. opened = Some img \<and> is_dir img (layout (read_sb img)) n \<and>
        1 < inode_refs (state_of r) (unat n) \<longrightarrow> halted_dup img (layout (read_sb img)) r"
  proof (intro allI impI)
    fix img n
    assume a: "opened = Some img \<and> is_dir img (layout (read_sb img)) n \<and>
        1 < inode_refs (state_of r) (unat n)"
    then have "\<not> dirs_once img (layout (read_sb img)) (state_of r)"
      by (metis dirs_once_def leD)
    then show "halted_dup img (layout (read_sb img)) r"
      using r(3) a by blast
  qed
  ultimately show ?thesis using r(1) by blast
qed

theorem traversal_returns_and_enters_once_witness:
  "\<exists>r. main 2 (Some img_root_loop) = Some r \<and>
     entered (steps (state_of r)) 1 = 2 \<and>
     is_dir img_root_loop (layout (read_sb img_root_loop)) 1 \<and>
     1 < inode_refs (state_of r) (unat (1 :: uint)) \<and>
     halted_dup img_root_loop (layout (read_sb img_root_loop)) r"
proof -
  from root_loop_run obtain st where st: "main 2 (Some img_root_loop) = Some (Exited st 1)"
    "steps st = [Enter 1, Count 1 0 2 1, Enter 1, Count 1 0 2 1]" "inode_refs st 1 = 2"
    by blast
  have d: "is_dir img_root_loop (layout (read_sb img_root_loop)) 1"
    by (simp add: is_dir_def run_defs header_consts img_root_loop_def)
  from traversal_returns_and_enters_once [of 2 "Some img_root_loop"]
  obtain r where r: "main 2 (Some img_root_loop) = Some r"
    "\<forall>img n. Some img_root_loop = Some img \<and> is_dir img (layout (read_sb img)) n \<and>
        1 < inode_refs (state_of r) (unat n) \<longrightarrow> halted_dup img (layout (read_sb img)) r"
    by blast
  have e: "r = Exited st 1" using r(1) st(1) by simp
  have "1 < inode_refs (state_of r) (unat (1 :: uint))" using e st(3) by simp
  moreover from this d r(2) have "halted_dup img_root_loop (layout (read_sb img_root_loop)) r"
    by blast
  moreover have "entered (steps (state_of r)) 1 = 2" using e st(2) by (simp add: entered_def)
  ultimately show ?thesis using r(1) d by blast
qed

subsection \<open>Which entries are counted\<close>

lemma counted_simps [simp]:
  "counted [] k = 0"
  "counted (xs @ ys) k = counted xs k + counted ys k"
  "counted [Enter n] k = 0"
  "counted [Lookup j] k = 0"
  "counted [Count d i s t] k = (if unat t = k then 1 else 0)"
  by (simp_all add: counted_def)















subsection \<open>The entries a completed traversal counts\<close>

text \<open>
  A part of the traversal that returns has counted the entries it had to
  scan, in the order of the slots, and those of the directories it entered.
\<close>
lemma visits_append [simp]: "visits (xs @ ys) = visits xs @ visits ys"
  by (induction xs rule: visits.induct) simp_all

lemma naming_simps [simp]:
  "naming [] k = 0"
  "naming (t # ts) k = (if unat t = k then 1 else 0) + naming ts k"
  "naming (ts @ us) k = naming ts k + naming us k"
  by (simp_all add: naming_def)

lemma scanned_naming_simps [simp]:
  "scanned_naming img g [] k = 0"
  "scanned_naming img g (n # ns) k = naming (entries_of img g n) k + scanned_naming img g ns k"
  "scanned_naming img g (ns @ ms) k = scanned_naming img g ns k + scanned_naming img g ms k"
  by (simp_all add: scanned_naming_def)












subsection \<open>A counted directory ahead ends the run\<close>


lemma blocked_Nil [simp]: "\<not> blocked img g [] st"
  by (simp add: blocked_def)

lemma blocked_append:
  "blocked img g (ts @ us) st \<longleftrightarrow> blocked img g ts st \<or> blocked img g us st"
  by (auto simp add: blocked_def)





subsection \<open>The root is entered once by a traversal that completes\<close>









subsection \<open>The exits of the traversal have status 1\<close>

lemma fails_simps [simp]:
  "fails (Cont st)" "fails (Faulted st)" "fails (Exited st c) \<longleftrightarrow> c = 1"
  by (simp_all add: fails_def)















lemma dot_counted_entries:
  "entries_of img_dot_counted (layout (read_sb img_dot_counted)) 1 = [2]"
  "entries_of img_dot_counted (layout (read_sb img_dot_counted)) 2 = []"
  by (simp_all add: entries_of_def block_entries.simps entries_from.simps run_defs header_consts
      img_dot_counted_def)




end
